theory Spec2Isabelle
  imports Main "HOL-Library.Multiset"
begin

section \<open>Data model of day16.py\<close>

text \<open>
  The frozen dataclasses \<open>Direction\<close> and \<open>Point\<close> hold two Python integers each.
  The selectors carry a prefix, since \<open>x\<close> and \<open>y\<close> are the fields of both classes.
\<close>

datatype direction = Direction (dir_x: int) (dir_y: int)

datatype point = Point (pt_x: int) (pt_y: int)

text \<open>
  A \<open>Rotation\<close> is four integer fields; \<open>RotateLeft()\<close> and \<open>RotateRight()\<close> are the
  two instances the program builds, always with the default field values.
\<close>

record rotation =
  c0r0 :: int
  c1r0 :: int
  c0r1 :: int
  c1r1 :: int

definition RotateLeft :: rotation where
  "RotateLeft = \<lparr>c0r0 = 0, c1r0 = - 1, c0r1 = 1, c1r1 = 0\<rparr>"

definition RotateRight :: rotation where
  "RotateRight = \<lparr>c0r0 = 0, c1r0 = 1, c0r1 = - 1, c1r1 = 0\<rparr>"

text \<open>
  \<open>Direction.__mul__\<close>. The second component reads \<open>c1r0\<close> and \<open>c1r1\<close>, as the
  source does; the field \<open>c0r1\<close> is not read.
\<close>

definition mul :: "direction \<Rightarrow> rotation \<Rightarrow> direction" where
  "mul d rotation =
     Direction (dir_x d * c0r0 rotation + dir_y d * c1r0 rotation)
               (dir_x d * c1r0 rotation + dir_y d * c1r1 rotation)"

text \<open>\<open>Point.__add__\<close>.\<close>

definition add :: "point \<Rightarrow> direction \<Rightarrow> point" where
  "add p d = Point (pt_x p + dir_x d) (pt_y p + dir_y d)"

text \<open>The four cardinal unit headings; \<open>DIRECTION_START\<close> is the first of them.\<close>

definition DIRECTION_START :: direction where
  "DIRECTION_START = Direction 1 0"

definition cardinals :: "direction set" where
  "cardinals = {Direction 1 0, Direction 0 1, Direction (- 1) 0, Direction 0 (- 1)}"

text \<open>
  The maze. \<open>tiles\<close> holds an entry for every wall cell; a cell without an entry is
  open. The field \<open>end\<close> of the source is \<open>end_cell\<close> here.
\<close>

datatype tile = Wall | Space

record maze =
  start :: point
  end_cell :: point
  tiles :: "point \<rightharpoonup> tile"
  width :: int
  height :: int

text \<open>\<open>isinstance(maze.tiles.get(p, Space()), Wall)\<close>.\<close>

definition is_wall :: "maze \<Rightarrow> point \<Rightarrow> bool" where
  "is_wall maze p = ((case tiles maze p of None \<Rightarrow> Space | Some t \<Rightarrow> t) = Wall)"

definition COST_FORWARD :: int where
  "COST_FORWARD = 1"

definition COST_ROTATE :: int where
  "COST_ROTATE = 1000"

definition distance_to_end :: "maze \<Rightarrow> point \<Rightarrow> int" where
  "distance_to_end maze p =
     \<bar>pt_x (end_cell maze) - pt_x p\<bar> + \<bar>pt_y (end_cell maze) - pt_y p\<bar>"

text \<open>
  The search nodes. The fields of \<open>NodeAStar\<close> carry the prefix \<open>a_\<close> and those of
  \<open>NodeDjikstra\<close> the prefix \<open>d_\<close>, since both classes have a \<open>direction\<close> and a
  \<open>point\<close>. A trail is a dictionary from cells to the marker \<open>1\<close>.
\<close>

type_synonym trail = "point \<rightharpoonup> int"

record node_astar =
  a_direction :: direction
  a_point :: point
  a_g :: int
  a_h :: int
  a_trail :: trail

definition a_f :: "node_astar \<Rightarrow> int" where
  "a_f self = a_g self + a_h self"

text \<open>\<open>NodeAStar.__lt__\<close>.\<close>

definition astar_lt :: "node_astar \<Rightarrow> node_astar \<Rightarrow> bool" where
  "astar_lt self other = (a_f self < a_f other)"

record node_djikstra =
  d_cost :: int
  d_direction :: direction
  d_point :: point

text \<open>
  The order that \<open>dataclass(order=True)\<close> generates compares the fields declared with
  \<open>compare=True\<close>, here \<open>cost\<close> alone.
\<close>

definition djikstra_lt :: "node_djikstra \<Rightarrow> node_djikstra \<Rightarrow> bool" where
  "djikstra_lt self other = (d_cost self < d_cost other)"

section \<open>The priority queue\<close>

text \<open>
  \<open>queue.PriorityQueue\<close> keeps its items in a list that is a binary heap: \<open>put\<close> is
  \<open>heapq.heappush\<close> and \<open>get\<close> is \<open>heapq.heappop\<close>, which compare items with
  \<open>__lt__\<close> only. The functions follow \<open>heapq\<close>: \<open>siftdown\<close> moves the item at
  \<open>pos\<close> up towards \<open>startpos\<close>, \<open>siftup\<close> moves the hole at \<open>pos\<close> down to a
  leaf along the smaller children and then sifts the item back up.
\<close>

function siftdown_loop ::
  "('a \<Rightarrow> 'a \<Rightarrow> bool) \<Rightarrow> 'a list \<Rightarrow> nat \<Rightarrow> nat \<Rightarrow> 'a \<Rightarrow> 'a list" where
  "siftdown_loop lt heap startpos pos newitem =
     (if pos > startpos then
        (let parentpos = (pos - 1) div 2;
             parent = heap ! parentpos
         in if lt newitem parent
            then siftdown_loop lt (heap[pos := parent]) startpos parentpos newitem
            else heap[pos := newitem])
      else heap[pos := newitem])"
  by pat_completeness auto

termination
  by (relation "measure (\<lambda>(lt, heap, startpos, pos, newitem). pos)") auto

definition siftdown :: "('a \<Rightarrow> 'a \<Rightarrow> bool) \<Rightarrow> 'a list \<Rightarrow> nat \<Rightarrow> nat \<Rightarrow> 'a list" where
  "siftdown lt heap startpos pos = siftdown_loop lt heap startpos pos (heap ! pos)"

function siftup_loop :: "('a \<Rightarrow> 'a \<Rightarrow> bool) \<Rightarrow> 'a list \<Rightarrow> nat \<Rightarrow> 'a list \<times> nat" where
  "siftup_loop lt heap pos =
     (let endpos = length heap;
          childpos = 2 * pos + 1
      in if childpos < endpos then
           (let rightpos = childpos + 1;
                childpos' = (if rightpos < endpos \<and> \<not> lt (heap ! childpos) (heap ! rightpos)
                             then rightpos else childpos)
            in siftup_loop lt (heap[pos := heap ! childpos']) childpos')
         else (heap, pos))"
  by pat_completeness auto

termination
  by (relation "measure (\<lambda>(lt, heap, pos). length heap - pos)") (auto simp: Let_def)

definition siftup :: "('a \<Rightarrow> 'a \<Rightarrow> bool) \<Rightarrow> 'a list \<Rightarrow> nat \<Rightarrow> 'a list" where
  "siftup lt heap pos =
     (let newitem = heap ! pos in
      case siftup_loop lt heap pos of
        (heap', pos') \<Rightarrow> siftdown lt (heap'[pos' := newitem]) pos pos')"

definition heappush :: "('a \<Rightarrow> 'a \<Rightarrow> bool) \<Rightarrow> 'a list \<Rightarrow> 'a \<Rightarrow> 'a list" where
  "heappush lt heap item = siftdown lt (heap @ [item]) 0 (length heap)"

text \<open>
  \<open>heappop\<close> of an empty heap is \<open>None\<close>: \<open>PriorityQueue.get\<close> does not return on an
  empty queue. Both searches test \<open>open.empty()\<close> before every \<open>get\<close>.
\<close>

definition heappop :: "('a \<Rightarrow> 'a \<Rightarrow> bool) \<Rightarrow> 'a list \<Rightarrow> ('a \<times> 'a list) option" where
  "heappop lt heap =
     (if heap = [] then None
      else
        let lastelt = last heap;
            heap' = butlast heap
        in if heap' \<noteq> [] then Some (heap' ! 0, siftup lt (heap'[0 := lastelt]) 0)
           else Some (lastelt, []))"

section \<open>The two searches\<close>

text \<open>
  A search either raises or returns a value; \<open>KeyError\<close> is what a read of a missing
  key of \<open>trails\<close> would raise. One pass through the \<open>while\<close> loop either leaves
  the function (\<open>Finished\<close>) or hands the next pass its state (\<open>Running\<close>).
\<close>

datatype error = RouteNotFound | KeyError

datatype ('s, 'r) outcome = Running 's | Finished 'r

text \<open>
  \<open>closed\<close> is a dictionary from (heading, cell) pairs to booleans, read with
  \<open>closed.get(key, False)\<close>.
\<close>

type_synonym closed = "(direction \<times> point) \<rightharpoonup> bool"

definition closed_get :: "closed \<Rightarrow> direction \<times> point \<Rightarrow> bool" where
  "closed_get closed k = (case closed k of None \<Rightarrow> False | Some b \<Rightarrow> b)"

record astar_state =
  a_open :: "node_astar list"
  a_closed :: closed

text \<open>
  The body of the \<open>while\<close> loop of \<open>find_astar\<close>, with the loop test in front. The
  case \<open>None\<close> of \<open>heappop\<close> stands for a \<open>get\<close> that does not return; the loop test
  excludes it.
\<close>

definition astar_step ::
  "maze \<Rightarrow> astar_state \<Rightarrow> (astar_state, error + int \<times> trail) outcome" where
  "astar_step maze st =
     (if a_open st = [] then Finished (Inl RouteNotFound)
      else case heappop astar_lt (a_open st) of
        None \<Rightarrow> Running st
      | Some (current, open1) \<Rightarrow>
          if a_point current = end_cell maze then
            Finished (Inr (a_g current, a_trail current))
          else if closed_get (a_closed st) (a_direction current, a_point current) then
            Running \<lparr>a_open = open1, a_closed = a_closed st\<rparr>
          else
            let closed1 = (a_closed st)((a_direction current, a_point current) \<mapsto> True)
            in if \<not> is_wall maze (a_point current) then
                 let open2 = heappush astar_lt open1
                       \<lparr>a_direction = a_direction current,
                        a_point = add (a_point current) (a_direction current),
                        a_g = a_g current + COST_FORWARD,
                        a_h = distance_to_end maze (add (a_point current) (a_direction current)),
                        a_trail = (a_trail current)
                                    (add (a_point current) (a_direction current) \<mapsto> 1)\<rparr>;
                     open3 = heappush astar_lt open2
                       \<lparr>a_direction = mul (a_direction current) RotateLeft,
                        a_point = a_point current,
                        a_g = a_g current + COST_ROTATE,
                        a_h = a_h current,
                        a_trail = a_trail current\<rparr>;
                     open4 = heappush astar_lt open3
                       \<lparr>a_direction = mul (a_direction current) RotateRight,
                        a_point = a_point current,
                        a_g = a_g current + COST_ROTATE,
                        a_h = a_h current,
                        a_trail = a_trail current\<rparr>
                 in Running \<lparr>a_open = open4, a_closed = closed1\<rparr>
               else Running \<lparr>a_open = open1, a_closed = closed1\<rparr>)"

text \<open>
  The \<open>while\<close> loop, run for at most \<open>fuel\<close> passes: \<open>Running\<close> is the state in
  which the fuel ran out.
\<close>

fun while_loop :: "('s \<Rightarrow> ('s, 'r) outcome) \<Rightarrow> nat \<Rightarrow> 's \<Rightarrow> ('s, 'r) outcome" where
  "while_loop step 0 st = Running st"
| "while_loop step (Suc fuel) st =
     (case step st of
        Finished r \<Rightarrow> Finished r
      | Running st' \<Rightarrow> while_loop step fuel st')"

definition astar_init :: "maze \<Rightarrow> point \<Rightarrow> direction \<Rightarrow> astar_state" where
  "astar_init maze reindeer direction_default =
     \<lparr>a_open = heappush astar_lt []
        \<lparr>a_direction = direction_default,
         a_point = reindeer,
         a_g = 0,
         a_h = distance_to_end maze reindeer,
         a_trail = [reindeer \<mapsto> 1]\<rparr>,
      a_closed = Map.empty\<rparr>"

text \<open>
  \<open>find_astar\<close>: \<open>None\<close> when the loop is still running after \<open>fuel\<close> passes,
  \<open>Some (Inl e)\<close> when it raised, \<open>Some (Inr (cost, trail))\<close> when it returned.
\<close>

definition find_astar ::
  "nat \<Rightarrow> maze \<Rightarrow> point \<Rightarrow> direction \<Rightarrow> (error + int \<times> trail) option" where
  "find_astar fuel maze reindeer direction_default =
     (case while_loop (astar_step maze) fuel (astar_init maze reindeer direction_default) of
        Finished r \<Rightarrow> Some r
      | Running st \<Rightarrow> None)"

type_synonym trails = "(point \<times> int) \<rightharpoonup> point set"

record djikstra_state =
  d_open :: "node_djikstra list"
  d_closed :: closed
  d_trails :: trails

text \<open>
  One pass of the \<open>for node in nodes\<close> loop of \<open>find_djikstra\<close>: the entry of the
  node's (cell, cost) key becomes its old value (the empty set when there was none)
  united with the entry of the current node's key and the node's cell; then the node is
  put on the queue.
\<close>

definition visit ::
  "node_djikstra \<Rightarrow> trails \<times> node_djikstra list \<Rightarrow> node_djikstra
     \<Rightarrow> error + trails \<times> node_djikstra list" where
  "visit current acc node =
     (case acc of (trails, opn) \<Rightarrow>
        (case trails (d_point current, d_cost current) of
           None \<Rightarrow> Inl KeyError
         | Some cur \<Rightarrow>
             Inr (trails((d_point node, d_cost node) \<mapsto>
                    (case trails (d_point node, d_cost node) of None \<Rightarrow> {} | Some s \<Rightarrow> s)
                      \<union> cur \<union> {d_point node}),
                  heappush djikstra_lt opn node)))"

fun visit_all ::
  "node_djikstra \<Rightarrow> trails \<times> node_djikstra list \<Rightarrow> node_djikstra list
     \<Rightarrow> error + trails \<times> node_djikstra list" where
  "visit_all current acc [] = Inr acc"
| "visit_all current acc (node # nodes) =
     (case visit current acc node of
        Inl e \<Rightarrow> Inl e
      | Inr acc' \<Rightarrow> visit_all current acc' nodes)"

definition successors :: "node_djikstra \<Rightarrow> node_djikstra list" where
  "successors current =
     [\<lparr>d_cost = d_cost current + COST_FORWARD,
       d_direction = d_direction current,
       d_point = add (d_point current) (d_direction current)\<rparr>,
      \<lparr>d_cost = d_cost current + COST_ROTATE,
       d_direction = mul (d_direction current) RotateLeft,
       d_point = d_point current\<rparr>,
      \<lparr>d_cost = d_cost current + COST_ROTATE,
       d_direction = mul (d_direction current) RotateRight,
       d_point = d_point current\<rparr>]"

text \<open>The body of the \<open>while\<close> loop of \<open>find_djikstra\<close>, with the loop test in front.\<close>

definition djikstra_step ::
  "maze \<Rightarrow> djikstra_state \<Rightarrow> (djikstra_state, error + int \<times> point set) outcome" where
  "djikstra_step maze st =
     (if d_open st = [] then Finished (Inl RouteNotFound)
      else case heappop djikstra_lt (d_open st) of
        None \<Rightarrow> Running st
      | Some (current, open1) \<Rightarrow>
          if d_point current = end_cell maze then
            (case d_trails st (d_point current, d_cost current) of
               None \<Rightarrow> Finished (Inl KeyError)
             | Some cells \<Rightarrow> Finished (Inr (d_cost current, cells)))
          else if closed_get (d_closed st) (d_direction current, d_point current) then
            Running \<lparr>d_open = open1, d_closed = d_closed st, d_trails = d_trails st\<rparr>
          else
            let closed1 = (d_closed st)((d_direction current, d_point current) \<mapsto> True)
            in if \<not> is_wall maze (d_point current) then
                 (case visit_all current (d_trails st, open1) (successors current) of
                    Inl e \<Rightarrow> Finished (Inl e)
                  | Inr (trails1, open2) \<Rightarrow>
                      Running \<lparr>d_open = open2, d_closed = closed1, d_trails = trails1\<rparr>)
               else Running \<lparr>d_open = open1, d_closed = closed1, d_trails = d_trails st\<rparr>)"

definition djikstra_init :: "point \<Rightarrow> direction \<Rightarrow> djikstra_state" where
  "djikstra_init reindeer direction_default =
     \<lparr>d_open = heappush djikstra_lt []
        \<lparr>d_cost = 0, d_direction = direction_default, d_point = reindeer\<rparr>,
      d_closed = Map.empty,
      d_trails = [(reindeer, 0) \<mapsto> {reindeer}]\<rparr>"

definition find_djikstra ::
  "nat \<Rightarrow> maze \<Rightarrow> point \<Rightarrow> direction \<Rightarrow> (error + int \<times> point set) option" where
  "find_djikstra fuel maze reindeer direction_default =
     (case while_loop (djikstra_step maze) fuel (djikstra_init reindeer direction_default) of
        Finished r \<Rightarrow> Some r
      | Running st \<Rightarrow> None)"

section \<open>Notions used in the proofs\<close>

text \<open>The heap order on a list, for items compared by an integer key.\<close>

definition heap_ok :: "('a \<Rightarrow> int) \<Rightarrow> 'a list \<Rightarrow> bool" where
  "heap_ok key xs \<longleftrightarrow>
     (\<forall>i. 0 < i \<and> i < length xs \<longrightarrow> key (xs ! ((i - 1) div 2)) \<le> key (xs ! i))"

text \<open>
  The heap order with a hole at \<open>pos\<close>, as \<open>siftdown\<close> sees it while the item \<open>v\<close>
  travels up, and as \<open>siftup\<close> sees it while the hole travels down.
\<close>

definition hole_up :: "('a \<Rightarrow> int) \<Rightarrow> 'a list \<Rightarrow> nat \<Rightarrow> 'a \<Rightarrow> bool" where
  "hole_up key heap pos v \<longleftrightarrow>
     pos < length heap
     \<and> (\<forall>i. 0 < i \<and> i < length heap \<and> i \<noteq> pos \<and> (i - 1) div 2 \<noteq> pos
            \<longrightarrow> key (heap ! ((i - 1) div 2)) \<le> key (heap ! i))
     \<and> (\<forall>i. 0 < i \<and> i < length heap \<and> (i - 1) div 2 = pos
            \<longrightarrow> key v \<le> key (heap ! i)
                \<and> (0 < pos \<longrightarrow> key (heap ! ((pos - 1) div 2)) \<le> key (heap ! i)))"

definition hole_down :: "('a \<Rightarrow> int) \<Rightarrow> 'a list \<Rightarrow> nat \<Rightarrow> bool" where
  "hole_down key heap pos \<longleftrightarrow>
     pos < length heap
     \<and> (\<forall>i. 0 < i \<and> i < length heap \<and> i \<noteq> pos \<and> (i - 1) div 2 \<noteq> pos
            \<longrightarrow> key (heap ! ((i - 1) div 2)) \<le> key (heap ! i))
     \<and> (\<forall>i. 0 < i \<and> i < length heap \<and> (i - 1) div 2 = pos \<and> 0 < pos
            \<longrightarrow> key (heap ! ((pos - 1) div 2)) \<le> key (heap ! i))"

text \<open>
  The state space both searches explore: a state is a heading with a cell, and a node
  popped on a cell that is not a wall has three successors, one per move.
\<close>

datatype move = Forward | TurnLeft | TurnRight

type_synonym pose = "direction \<times> point"

fun successor :: "move \<Rightarrow> pose \<Rightarrow> pose" where
  "successor Forward (d, p) = (d, add p d)"
| "successor TurnLeft (d, p) = (mul d RotateLeft, p)"
| "successor TurnRight (d, p) = (mul d RotateRight, p)"

fun move_cost :: "move \<Rightarrow> int" where
  "move_cost Forward = COST_FORWARD"
| "move_cost TurnLeft = COST_ROTATE"
| "move_cost TurnRight = COST_ROTATE"

text \<open>
  A walk runs a list of moves from a state; a move is made from a cell that is not a wall
  only, as the loops expand no node on a wall. Its cost is the sum of the costs of its
  moves.
\<close>

fun walk :: "maze \<Rightarrow> pose \<Rightarrow> move list \<Rightarrow> pose option" where
  "walk m s [] = Some s"
| "walk m s (mv # mvs) = (if is_wall m (snd s) then None else walk m (successor mv s) mvs)"

definition path_cost :: "move list \<Rightarrow> int" where
  "path_cost mvs = sum_list (map move_cost mvs)"

text \<open>A heuristic that a forward step along one of the four headings lowers by at most 1.\<close>

definition consistent :: "(point \<Rightarrow> int) \<Rightarrow> bool" where
  "consistent hfun \<longleftrightarrow> (\<forall>p d. d \<in> cardinals \<longrightarrow> hfun p \<le> hfun (add p d) + 1)"

text \<open>
  The invariant of both loops, on the multiset \<open>opn\<close> of the (cost, state) pairs on the
  queue and the set \<open>cl\<close> of closed states: a queued cost is the cost of a walk to its
  state; no closed state is on the end cell; the start state is closed or queued with
  cost 0; a closed state \<open>c\<close> was closed with a cost \<open>G c\<close> that no walk to it undercuts;
  and each successor of a closed state is closed or queued with the cost through that
  state.
\<close>

definition search_inv ::
  "maze \<Rightarrow> pose \<Rightarrow> (int \<times> pose) multiset \<Rightarrow> pose set \<Rightarrow> (pose \<Rightarrow> int) \<Rightarrow> bool" where
  "search_inv m s0 opn cl G \<longleftrightarrow>
     (\<forall>n \<in># opn. \<exists>mvs. walk m s0 mvs = Some (snd n) \<and> path_cost mvs = fst n)
     \<and> (\<forall>c \<in> cl. snd c \<noteq> end_cell m)
     \<and> (s0 \<in> cl \<or> (0, s0) \<in># opn)
     \<and> (\<forall>c \<in> cl. \<forall>mvs. walk m s0 mvs = Some c \<longrightarrow> G c \<le> path_cost mvs)
     \<and> (\<forall>c \<in> cl. \<not> is_wall m (snd c) \<longrightarrow>
           (\<forall>mv. successor mv c \<in> cl \<or> (G c + move_cost mv, successor mv c) \<in># opn))"

text \<open>What an expansion of the node \<open>n\<close> adds to the queue.\<close>

definition expand :: "maze \<Rightarrow> int \<times> pose \<Rightarrow> (int \<times> pose) multiset" where
  "expand m n =
     (if is_wall m (snd (snd n)) then {#}
      else {#(fst n + move_cost Forward, successor Forward (snd n)),
             (fst n + move_cost TurnLeft, successor TurnLeft (snd n)),
             (fst n + move_cost TurnRight, successor TurnRight (snd n))#})"

text \<open>The Manhattan distance, of which \<open>distance_to_end\<close> is the distance to the end cell.\<close>

definition manhattan :: "point \<Rightarrow> point \<Rightarrow> int" where
  "manhattan a b = \<bar>pt_x a - pt_x b\<bar> + \<bar>pt_y a - pt_y b\<bar>"

text \<open>The states that \<open>closed\<close> marks.\<close>

definition closed_set :: "closed \<Rightarrow> pose set" where
  "closed_set cl = {k. closed_get cl k}"

text \<open>The cost and the state of a node.\<close>

definition astar_view :: "node_astar \<Rightarrow> int \<times> pose" where
  "astar_view n = (a_g n, (a_direction n, a_point n))"

text \<open>
  The invariant of the loop of \<open>find_astar\<close>: the queue is a heap ordered by \<open>f\<close>, every
  queued node carries the distance from its cell to the end as \<open>h\<close>, and the search
  invariant holds.
\<close>

definition astar_inv :: "maze \<Rightarrow> pose \<Rightarrow> astar_state \<Rightarrow> bool" where
  "astar_inv m s0 st \<longleftrightarrow>
     heap_ok a_f (a_open st)
     \<and> (\<forall>n \<in> set (a_open st). a_h n = distance_to_end m (a_point n))
     \<and> (\<exists>G. search_inv m s0 (image_mset astar_view (mset (a_open st)))
               (closed_set (a_closed st)) G)"

text \<open>The least cost of a walk from \<open>s0\<close> to the end cell.\<close>

definition best_cost :: "maze \<Rightarrow> pose \<Rightarrow> int \<Rightarrow> bool" where
  "best_cost m s0 c \<longleftrightarrow>
     (\<exists>mvs t. walk m s0 mvs = Some t \<and> snd t = end_cell m \<and> path_cost mvs = c)
     \<and> (\<forall>mvs t. walk m s0 mvs = Some t \<and> snd t = end_cell m \<longrightarrow> c \<le> path_cost mvs)"

text \<open>The three nodes that an expansion of \<open>current\<close> puts on the queue.\<close>

definition astar_forward :: "maze \<Rightarrow> node_astar \<Rightarrow> node_astar" where
  "astar_forward maze current =
     \<lparr>a_direction = a_direction current,
      a_point = add (a_point current) (a_direction current),
      a_g = a_g current + COST_FORWARD,
      a_h = distance_to_end maze (add (a_point current) (a_direction current)),
      a_trail = (a_trail current)(add (a_point current) (a_direction current) \<mapsto> 1)\<rparr>"

definition astar_rotate :: "rotation \<Rightarrow> node_astar \<Rightarrow> node_astar" where
  "astar_rotate r current =
     \<lparr>a_direction = mul (a_direction current) r,
      a_point = a_point current,
      a_g = a_g current + COST_ROTATE,
      a_h = a_h current,
      a_trail = a_trail current\<rparr>"

text \<open>The cost and the state of a node, and its key in \<open>trails\<close>.\<close>

definition djikstra_view :: "node_djikstra \<Rightarrow> int \<times> pose" where
  "djikstra_view n = (d_cost n, (d_direction n, d_point n))"

definition d_key :: "node_djikstra \<Rightarrow> point \<times> int" where
  "d_key n = (d_point n, d_cost n)"

text \<open>The three nodes of \<open>successors\<close>.\<close>

definition d_forward :: "node_djikstra \<Rightarrow> node_djikstra" where
  "d_forward current =
     \<lparr>d_cost = d_cost current + COST_FORWARD,
      d_direction = d_direction current,
      d_point = add (d_point current) (d_direction current)\<rparr>"

definition d_rotate :: "rotation \<Rightarrow> node_djikstra \<Rightarrow> node_djikstra" where
  "d_rotate r current =
     \<lparr>d_cost = d_cost current + COST_ROTATE,
      d_direction = mul (d_direction current) r,
      d_point = d_point current\<rparr>"

text \<open>
  \<open>trails\<close> after one pass of the \<open>for\<close> loop, where \<open>cur\<close> is the entry of the current
  node, and \<open>trails\<close> and the queue after the three passes.
\<close>

definition extend_trails :: "trails \<Rightarrow> point set \<Rightarrow> node_djikstra \<Rightarrow> trails" where
  "extend_trails tr cur node =
     tr(d_key node \<mapsto> (case tr (d_key node) of None \<Rightarrow> {} | Some s \<Rightarrow> s) \<union> cur \<union> {d_point node})"

definition expand_trails :: "trails \<Rightarrow> point set \<Rightarrow> node_djikstra \<Rightarrow> trails" where
  "expand_trails tr cur current =
     extend_trails (extend_trails (extend_trails tr cur (d_forward current))
       cur (d_rotate RotateLeft current)) cur (d_rotate RotateRight current)"

definition expand_open :: "node_djikstra list \<Rightarrow> node_djikstra \<Rightarrow> node_djikstra list" where
  "expand_open opn current =
     heappush djikstra_lt (heappush djikstra_lt (heappush djikstra_lt opn
       (d_forward current)) (d_rotate RotateLeft current)) (d_rotate RotateRight current)"

text \<open>Every entry of \<open>tr\<close> is there in \<open>tr'\<close>, as a superset.\<close>

definition trails_le :: "trails \<Rightarrow> trails \<Rightarrow> bool" where
  "trails_le tr tr' \<longleftrightarrow> (\<forall>k S. tr k = Some S \<longrightarrow> (\<exists>S'. tr' k = Some S' \<and> S \<subseteq> S'))"

text \<open>
  What holds in every pass of the loop of \<open>find_djikstra\<close>: the queue is a heap ordered
  by cost, every queued node has an entry in \<open>trails\<close>, and every entry contains the
  start cell and the cell of its key.
\<close>

definition d_basic_inv :: "point \<Rightarrow> djikstra_state \<Rightarrow> bool" where
  "d_basic_inv reindeer st \<longleftrightarrow>
     heap_ok d_cost (d_open st)
     \<and> (\<forall>n \<in> set (d_open st). d_key n \<in> dom (d_trails st))
     \<and> (\<forall>k S. d_trails st k = Some S \<longrightarrow> reindeer \<in> S \<and> fst k \<in> S)"

text \<open>The invariant of the loop of \<open>find_djikstra\<close>, for a start with one of the four headings.\<close>

definition djikstra_inv :: "maze \<Rightarrow> pose \<Rightarrow> djikstra_state \<Rightarrow> bool" where
  "djikstra_inv m s0 st \<longleftrightarrow>
     d_basic_inv (snd s0) st
     \<and> (\<exists>G. search_inv m s0 (image_mset djikstra_view (mset (d_open st)))
               (closed_set (d_closed st)) G)"

text \<open>A maze of three rows and three columns without walls, from \<open>(0, 1)\<close> to \<open>(2, 1)\<close>.\<close>

definition corridor3 :: maze where
  "corridor3 =
     \<lparr>start = Point 0 1, end_cell = Point 2 1, tiles = Map.empty, width = 3, height = 3\<rparr>"

text \<open>A maze whose start cell \<open>(0, 0)\<close> is itself a wall: nothing can be reached.\<close>

definition walled_in :: maze where
  "walled_in =
     \<lparr>start = Point 0 0, end_cell = Point 2 0, tiles = [Point 0 0 \<mapsto> Wall],
      width = 3, height = 1\<rparr>"

text \<open>The cost part of a search result, as \<open>part1\<close> takes it with \<open>[0]\<close>.\<close>

definition cost_of :: "(error + int \<times> 'a) option \<Rightarrow> (error + int) option" where
  "cost_of r = map_option (map_sum id fst) r"

text \<open>
  A maze of one row whose end cell \<open>(1, 0)\<close>, next to the start \<open>(0, 0)\<close>, is a wall.
\<close>

definition wall_at_end :: maze where
  "wall_at_end =
     \<lparr>start = Point 0 0, end_cell = Point 1 0, tiles = [Point 1 0 \<mapsto> Wall],
      width = 2, height = 1\<rparr>"

text \<open>
  A maze of one row with a wall at \<open>(1, 0)\<close>, straight ahead of the start \<open>(0, 0)\<close>;
  the end is \<open>(3, 0)\<close>.
\<close>

definition wall_ahead :: maze where
  "wall_ahead =
     \<lparr>start = Point 0 0, end_cell = Point 3 0, tiles = [Point 1 0 \<mapsto> Wall],
      width = 4, height = 1\<rparr>"

text \<open>The cells and costs of the nodes on the queue after a pass of the loop.\<close>

definition astar_frontier :: "(astar_state, 'r) outcome \<Rightarrow> (point \<times> int) list" where
  "astar_frontier out =
     (case out of Running st \<Rightarrow> map (\<lambda>n. (a_point n, a_g n)) (a_open st) | Finished r \<Rightarrow> [])"

definition djikstra_frontier :: "(djikstra_state, 'r) outcome \<Rightarrow> (point \<times> int) list" where
  "djikstra_frontier out =
     (case out of Running st \<Rightarrow> map (\<lambda>n. (d_point n, d_cost n)) (d_open st) | Finished r \<Rightarrow> [])"

text \<open>The states within distance \<open>B\<close> of the cell \<open>p\<close>, with one of the four headings.\<close>

definition reach_set :: "point \<Rightarrow> int \<Rightarrow> pose set" where
  "reach_set p B = {s. fst s \<in> cardinals \<and> manhattan (snd s) p \<le> B}"

text \<open>What is left to do: the nodes on the queue, and three for every state not yet closed.\<close>

definition astar_measure :: "point \<Rightarrow> int \<Rightarrow> astar_state \<Rightarrow> nat" where
  "astar_measure p B st =
     length (a_open st) + 3 * card (reach_set p B - closed_set (a_closed st))"

definition djikstra_measure :: "point \<Rightarrow> int \<Rightarrow> djikstra_state \<Rightarrow> nat" where
  "djikstra_measure p B st =
     length (d_open st) + 3 * card (reach_set p B - closed_set (d_closed st))"

text \<open>The cell \<open>k\<close> steps from \<open>p\<close> in the heading \<open>d\<close>.\<close>

definition shift :: "point \<Rightarrow> direction \<Rightarrow> int \<Rightarrow> point" where
  "shift p d k = Point (pt_x p + k * dir_x d) (pt_y p + k * dir_y d)"

text \<open>How far the cell \<open>c\<close> lies from \<open>p\<close>, measured along the heading \<open>d\<close>.\<close>

definition progress :: "point \<Rightarrow> direction \<Rightarrow> point \<Rightarrow> int" where
  "progress p d c = (pt_x c - pt_x p) * dir_x d + (pt_y c - pt_y p) * dir_y d"

text \<open>
  A cost is at least the progress along \<open>d\<close>; an entry of \<open>trails\<close> whose cost equals
  the progress of its cell lies on the line from \<open>p\<close> and holds the cells of the line
  up to its own.
\<close>

definition corridor_entry :: "point \<Rightarrow> direction \<Rightarrow> point \<Rightarrow> int \<Rightarrow> point set \<Rightarrow> bool" where
  "corridor_entry p d c k S \<longleftrightarrow>
     0 \<le> k \<and> progress p d c \<le> k
     \<and> (k = progress p d c \<longrightarrow> c = shift p d k \<and> S = shift p d ` {0..k})"

definition corridor_inv :: "point \<Rightarrow> direction \<Rightarrow> trails \<Rightarrow> bool" where
  "corridor_inv p d tr \<longleftrightarrow> (\<forall>c k S. tr (c, k) = Some S \<longrightarrow> corridor_entry p d c k S)"

section \<open>The priority queue keeps a heap\<close>

declare siftdown_loop.simps [simp del]

declare siftup_loop.simps [simp del]

lemma mset_update_swap:
  "i < length xs \<Longrightarrow> j < length xs \<Longrightarrow> mset (xs[i := xs ! j, j := v]) = mset (xs[i := v])"
proof (cases "i = j")
  case True
  then show ?thesis by simp
next
  case False
  assume i: "i < length xs" and j: "j < length xs"
  have "mset (xs[i := xs ! j, j := v]) = add_mset v (mset (xs[i := xs ! j]) - {#xs ! j#})"
    using j False by (simp add: mset_update)
  also have "\<dots> = add_mset v (add_mset (xs ! j) (mset xs - {#xs ! i#}) - {#xs ! j#})"
    using i by (simp add: mset_update)
  also have "\<dots> = add_mset v (mset xs - {#xs ! i#})"
    by simp
  also have "\<dots> = mset (xs[i := v])"
    using i by (simp add: mset_update)
  finally show ?thesis .
qed

lemma length_siftdown_loop [simp]: "length (siftdown_loop lt heap s pos v) = length heap"
  by (induction lt heap s pos v rule: siftdown_loop.induct)
     (subst siftdown_loop.simps, simp add: Let_def)

lemma mset_siftdown_loop:
  "pos < length heap \<Longrightarrow> mset (siftdown_loop lt heap s pos v) = mset (heap[pos := v])"
proof (induction lt heap s pos v rule: siftdown_loop.induct)
  case (1 lt heap startpos pos newitem)
  show ?case
  proof (cases "pos > startpos \<and> lt newitem (heap ! ((pos - 1) div 2))")
    case True
    have pp: "(pos - 1) div 2 < length heap" using "1.prems" by simp
    have "mset (siftdown_loop lt heap startpos pos newitem)
        = mset (siftdown_loop lt (heap[pos := heap ! ((pos - 1) div 2)]) startpos ((pos - 1) div 2) newitem)"
      using True by (subst siftdown_loop.simps) (simp add: Let_def)
    also have "\<dots> = mset (heap[pos := heap ! ((pos - 1) div 2), (pos - 1) div 2 := newitem])"
      using "1.IH"[OF _ refl refl] True pp by simp
    also have "\<dots> = mset (heap[pos := newitem])"
      using mset_update_swap[OF "1.prems" pp] by simp
    finally show ?thesis .
  next
    case False
    then show ?thesis by (subst siftdown_loop.simps) (auto simp: Let_def)
  qed
qed

lemma heap_ok_root:
  assumes "heap_ok key xs" and "i < length xs"
  shows "key (xs ! 0) \<le> key (xs ! i)"
  using assms(2)
proof (induction i rule: less_induct)
  case (less i)
  show ?case
  proof (cases "i = 0")
    case True
    then show ?thesis by simp
  next
    case False
    then have lt: "(i - 1) div 2 < i" by simp
    have "key (xs ! 0) \<le> key (xs ! ((i - 1) div 2))"
      using less.IH[OF lt] lt less.prems by simp
    moreover have "key (xs ! ((i - 1) div 2)) \<le> key (xs ! i)"
      using assms(1) False less.prems by (simp add: heap_ok_def)
    ultimately show ?thesis by simp
  qed
qed

lemma hole_up_place:
  assumes h: "hole_up key heap pos v"
    and top: "pos = 0 \<or> key (heap ! ((pos - 1) div 2)) \<le> key v"
  shows "heap_ok key (heap[pos := v])"
  unfolding heap_ok_def
proof (intro allI impI)
  fix i assume i: "0 < i \<and> i < length (heap[pos := v])"
  then have il: "i < length heap" and i0: "0 < i" by simp_all
  have pl: "pos < length heap" using h by (simp add: hole_up_def)
  have pil: "(i - 1) div 2 < length heap" using il by simp
  have pne: "(i - 1) div 2 \<noteq> i" using i0 by simp
  show "key (heap[pos := v] ! ((i - 1) div 2)) \<le> key (heap[pos := v] ! i)"
  proof (cases "i = pos")
    case True
    then show ?thesis using top i0 pl pne pil by (simp add: nth_list_update)
  next
    case ne: False
    show ?thesis
    proof (cases "(i - 1) div 2 = pos")
      case True
      then have "key v \<le> key (heap ! i)"
        using h i0 il by (simp add: hole_up_def)
      then show ?thesis using True ne pl il by (simp add: nth_list_update)
    next
      case False
      then have "key (heap ! ((i - 1) div 2)) \<le> key (heap ! i)"
        using h i0 il ne by (simp add: hole_up_def)
      then show ?thesis using False ne by (simp add: nth_list_update)
    qed
  qed
qed

lemma hole_up_step:
  assumes h: "hole_up key heap pos v"
    and pos: "0 < pos"
    and lt: "key v < key (heap ! ((pos - 1) div 2))"
  shows "hole_up key (heap[pos := heap ! ((pos - 1) div 2)]) ((pos - 1) div 2) v"
proof -
  let ?pp = "(pos - 1) div 2"
  let ?h' = "heap[pos := heap ! ?pp]"
  have pl: "pos < length heap" using h by (simp add: hole_up_def)
  have ppl: "?pp < pos" using pos by simp
  have a: "\<And>i. 0 < i \<Longrightarrow> i < length heap \<Longrightarrow> i \<noteq> pos \<Longrightarrow> (i - 1) div 2 \<noteq> pos
            \<Longrightarrow> key (heap ! ((i - 1) div 2)) \<le> key (heap ! i)"
    using h by (simp add: hole_up_def)
  have b: "\<And>i. 0 < i \<Longrightarrow> i < length heap \<Longrightarrow> (i - 1) div 2 = pos
            \<Longrightarrow> key (heap ! ?pp) \<le> key (heap ! i)"
    using h pos by (simp add: hole_up_def)
  have c1: "\<forall>i. 0 < i \<and> i < length ?h' \<and> i \<noteq> ?pp \<and> (i - 1) div 2 \<noteq> ?pp
            \<longrightarrow> key (?h' ! ((i - 1) div 2)) \<le> key (?h' ! i)"
  proof (intro allI impI)
    fix i assume i: "0 < i \<and> i < length ?h' \<and> i \<noteq> ?pp \<and> (i - 1) div 2 \<noteq> ?pp"
    then have i0: "0 < i" and il: "i < length heap" and ine: "i \<noteq> ?pp"
      and pine: "(i - 1) div 2 \<noteq> ?pp" by simp_all
    have inp: "i \<noteq> pos" using pine by auto
    show "key (?h' ! ((i - 1) div 2)) \<le> key (?h' ! i)"
    proof (cases "(i - 1) div 2 = pos")
      case True
      then show ?thesis using b[OF i0 il True] inp pl by (simp add: nth_list_update)
    next
      case False
      then show ?thesis using a[OF i0 il inp False] inp by (simp add: nth_list_update)
    qed
  qed
  have c2: "\<forall>i. 0 < i \<and> i < length ?h' \<and> (i - 1) div 2 = ?pp
            \<longrightarrow> key v \<le> key (?h' ! i)
                \<and> (0 < ?pp \<longrightarrow> key (?h' ! ((?pp - 1) div 2)) \<le> key (?h' ! i))"
  proof (intro allI impI)
    fix i assume i: "0 < i \<and> i < length ?h' \<and> (i - 1) div 2 = ?pp"
    then have i0: "0 < i" and il: "i < length heap" and pi: "(i - 1) div 2 = ?pp" by simp_all
    have gp: "0 < ?pp \<Longrightarrow> key (heap ! ((?pp - 1) div 2)) \<le> key (heap ! ?pp)"
    proof -
      assume p0: "0 < ?pp"
      have "(?pp - 1) div 2 \<noteq> pos" using ppl by arith
      then show ?thesis using a[of ?pp] p0 ppl pl by simp
    qed
    have gpne: "0 < ?pp \<Longrightarrow> (?pp - 1) div 2 \<noteq> pos" using ppl by arith
    show "key v \<le> key (?h' ! i) \<and> (0 < ?pp \<longrightarrow> key (?h' ! ((?pp - 1) div 2)) \<le> key (?h' ! i))"
    proof (cases "i = pos")
      case True
      then show ?thesis using lt gp gpne pl by (simp add: nth_list_update)
    next
      case False
      have "(i - 1) div 2 \<noteq> pos" using pi ppl by simp
      then have le: "key (heap ! ?pp) \<le> key (heap ! i)"
        using a[OF i0 il False] pi by simp
      then show ?thesis using False lt gp gpne by (auto simp: nth_list_update)
    qed
  qed
  show ?thesis
    unfolding hole_up_def using c1 c2 ppl pl by simp
qed

lemma heap_ok_siftdown_loop:
  "hole_up key heap pos v \<Longrightarrow> heap_ok key (siftdown_loop (\<lambda>a b. key a < key b) heap 0 pos v)"
proof (induction pos arbitrary: heap rule: less_induct)
  case (less pos)
  show ?case
  proof (cases "0 < pos \<and> key v < key (heap ! ((pos - 1) div 2))")
    case True
    then have "0 < pos" by simp
    then have lt: "(pos - 1) div 2 < pos" by arith
    have "heap_ok key (siftdown_loop (\<lambda>a b. key a < key b)
            (heap[pos := heap ! ((pos - 1) div 2)]) 0 ((pos - 1) div 2) v)"
      using less.IH[OF lt hole_up_step] less.prems True by simp
    then show ?thesis
      using True by (subst siftdown_loop.simps) (simp add: Let_def)
  next
    case False
    then have "siftdown_loop (\<lambda>a b. key a < key b) heap 0 pos v = heap[pos := v]"
      by (subst siftdown_loop.simps) (auto simp: Let_def)
    moreover have "heap_ok key (heap[pos := v])"
      using hole_up_place[OF less.prems] False by auto
    ultimately show ?thesis by simp
  qed
qed

lemma heap_ok_heappush:
  assumes "heap_ok key heap"
  shows "heap_ok key (heappush (\<lambda>a b. key a < key b) heap item)"
proof -
  have "hole_up key (heap @ [item]) (length heap) item"
    unfolding hole_up_def
  proof (intro conjI allI impI)
    show "length heap < length (heap @ [item])" by simp
  next
    fix i assume i: "0 < i \<and> i < length (heap @ [item]) \<and> i \<noteq> length heap
        \<and> (i - 1) div 2 \<noteq> length heap"
    then have "i < length heap" by simp
    moreover from this have "(i - 1) div 2 < length heap" by simp
    ultimately show "key ((heap @ [item]) ! ((i - 1) div 2)) \<le> key ((heap @ [item]) ! i)"
      using assms i by (simp add: heap_ok_def nth_append)
  next
    fix i assume i: "0 < i \<and> i < length (heap @ [item]) \<and> (i - 1) div 2 = length heap"
    then have False by auto
    then show "key item \<le> key ((heap @ [item]) ! i)" ..
  next
    fix i assume i: "0 < i \<and> i < length (heap @ [item]) \<and> (i - 1) div 2 = length heap"
    then have False by auto
    then show "key ((heap @ [item]) ! ((length heap - 1) div 2)) \<le> key ((heap @ [item]) ! i)" ..
  qed
  then show ?thesis
    using heap_ok_siftdown_loop[of key "heap @ [item]" "length heap" item]
    by (simp add: heappush_def siftdown_def)
qed

lemma mset_heappush: "mset (heappush lt heap item) = add_mset item (mset heap)"
  by (simp add: heappush_def siftdown_def mset_siftdown_loop)

lemma child_cases: "0 < (i::nat) \<Longrightarrow> (i - 1) div 2 = pos \<Longrightarrow> i = 2 * pos + 1 \<or> i = 2 * pos + 2"
  by arith

lemma hole_down_step:
  assumes h: "hole_down key heap pos"
    and ch: "2 * pos + 1 < length heap"
    and c: "c = (if 2 * pos + 2 < length heap \<and> \<not> key (heap ! (2 * pos + 1)) < key (heap ! (2 * pos + 2))
                 then 2 * pos + 2 else 2 * pos + 1)"
  shows "hole_down key (heap[pos := heap ! c]) c"
proof -
  let ?h' = "heap[pos := heap ! c]"
  have pl: "pos < length heap" using h by (simp add: hole_down_def)
  have cl: "c < length heap" using c ch by (simp split: if_splits)
  have cp: "(c - 1) div 2 = pos" and c0: "0 < c" and cgt: "pos < c"
    using c by (simp_all split: if_splits)
  have a: "\<And>i. 0 < i \<Longrightarrow> i < length heap \<Longrightarrow> i \<noteq> pos \<Longrightarrow> (i - 1) div 2 \<noteq> pos
            \<Longrightarrow> key (heap ! ((i - 1) div 2)) \<le> key (heap ! i)"
    using h by (simp add: hole_down_def)
  have b: "\<And>i. 0 < i \<Longrightarrow> i < length heap \<Longrightarrow> (i - 1) div 2 = pos \<Longrightarrow> 0 < pos
            \<Longrightarrow> key (heap ! ((pos - 1) div 2)) \<le> key (heap ! i)"
    using h by (simp add: hole_down_def)
  have sib: "\<And>i. 0 < i \<Longrightarrow> i < length heap \<Longrightarrow> (i - 1) div 2 = pos \<Longrightarrow> i \<noteq> c
            \<Longrightarrow> key (heap ! c) \<le> key (heap ! i)"
  proof -
    fix i assume i0: "0 < i" and il: "i < length heap" and ip: "(i - 1) div 2 = pos" and ic: "i \<noteq> c"
    from child_cases[OF i0 ip] show "key (heap ! c) \<le> key (heap ! i)"
      using c ic il by (auto split: if_splits)
  qed
  have c1: "\<forall>i. 0 < i \<and> i < length ?h' \<and> i \<noteq> c \<and> (i - 1) div 2 \<noteq> c
            \<longrightarrow> key (?h' ! ((i - 1) div 2)) \<le> key (?h' ! i)"
  proof (intro allI impI)
    fix i assume i: "0 < i \<and> i < length ?h' \<and> i \<noteq> c \<and> (i - 1) div 2 \<noteq> c"
    then have i0: "0 < i" and il: "i < length heap" and ic: "i \<noteq> c"
      and pic: "(i - 1) div 2 \<noteq> c" by simp_all
    have pii: "(i - 1) div 2 \<noteq> i" using i0 by arith
    show "key (?h' ! ((i - 1) div 2)) \<le> key (?h' ! i)"
    proof (cases "i = pos")
      case True
      then have "key (heap ! ((pos - 1) div 2)) \<le> key (heap ! c)"
        using b[OF c0 cl cp] i0 by simp
      then show ?thesis using True pii pl by (simp add: nth_list_update)
    next
      case ne: False
      show ?thesis
      proof (cases "(i - 1) div 2 = pos")
        case True
        then show ?thesis using sib[OF i0 il True ic] ne pl by (simp add: nth_list_update)
      next
        case False
        then show ?thesis using a[OF i0 il ne False] ne by (simp add: nth_list_update)
      qed
    qed
  qed
  have c2: "\<forall>i. 0 < i \<and> i < length ?h' \<and> (i - 1) div 2 = c \<and> 0 < c
            \<longrightarrow> key (?h' ! ((c - 1) div 2)) \<le> key (?h' ! i)"
  proof (intro allI impI)
    fix i assume i: "0 < i \<and> i < length ?h' \<and> (i - 1) div 2 = c \<and> 0 < c"
    then have i0: "0 < i" and il: "i < length heap" and pic: "(i - 1) div 2 = c" by simp_all
    have ip: "i \<noteq> pos" using pic cgt i0 by arith
    have "(i - 1) div 2 \<noteq> pos" using pic cgt by simp
    then have "key (heap ! c) \<le> key (heap ! i)"
      using a[OF i0 il ip] pic by simp
    then show "key (?h' ! ((c - 1) div 2)) \<le> key (?h' ! i)"
      using cp ip pl by (simp add: nth_list_update)
  qed
  show ?thesis
    unfolding hole_down_def using c1 c2 cl by simp
qed

lemma siftup_loop_props:
  assumes "hole_down key heap pos"
    and "siftup_loop (\<lambda>a b. key a < key b) heap pos = (heap', pos')"
  shows "hole_down key heap' pos' \<and> length heap' \<le> 2 * pos' + 1 \<and> length heap' = length heap
         \<and> (\<forall>v. mset (heap'[pos' := v]) = mset (heap[pos := v]))"
  using assms
proof (induction "length heap - pos" arbitrary: heap pos rule: less_induct)
  case less
  have pl: "pos < length heap" using less.prems(1) by (simp add: hole_down_def)
  show ?case
  proof (cases "2 * pos + 1 < length heap")
    case False
    then have "siftup_loop (\<lambda>a b. key a < key b) heap pos = (heap, pos)"
      by (subst siftup_loop.simps) (simp add: Let_def)
    then show ?thesis using less.prems False by simp
  next
    case True
    define c where "c = (if 2 * pos + 2 < length heap
          \<and> \<not> key (heap ! (2 * pos + 1)) < key (heap ! (2 * pos + 2))
        then 2 * pos + 2 else 2 * pos + 1)"
    have cl: "c < length heap" and cgt: "pos < c"
      using True by (simp_all add: c_def)
    have rec: "siftup_loop (\<lambda>a b. key a < key b) heap pos
        = siftup_loop (\<lambda>a b. key a < key b) (heap[pos := heap ! c]) c"
      using True by (subst siftup_loop.simps) (simp add: Let_def c_def)
    have hd: "hole_down key (heap[pos := heap ! c]) c"
      using hole_down_step[OF less.prems(1) True] by (simp add: c_def)
    have m: "length (heap[pos := heap ! c]) - c < length heap - pos"
      using cl cgt by simp
    have ih: "hole_down key heap' pos' \<and> length heap' \<le> 2 * pos' + 1
        \<and> length heap' = length (heap[pos := heap ! c])
        \<and> (\<forall>v. mset (heap'[pos' := v]) = mset (heap[pos := heap ! c, c := v]))"
      using less.hyps[OF m hd] less.prems(2) rec by simp
    have "\<And>v. mset (heap[pos := heap ! c, c := v]) = mset (heap[pos := v])"
      using mset_update_swap[OF pl cl] by simp
    then show ?thesis using ih by simp
  qed
qed

lemma hole_down_leaf:
  assumes h: "hole_down key heap pos" and leaf: "length heap \<le> 2 * pos + 1"
  shows "hole_up key (heap[pos := w]) pos v"
proof -
  have nochild: "\<And>i. 0 < i \<Longrightarrow> i < length heap \<Longrightarrow> (i - 1) div 2 \<noteq> pos"
    using leaf by arith
  show ?thesis
    using h nochild unfolding hole_up_def hole_down_def
    by (auto simp: nth_list_update)
qed

lemma heappop_props:
  assumes ok: "heap_ok key heap"
    and pop: "heappop (\<lambda>a b. key a < key b) heap = Some (item, heap')"
  shows "heap_ok key heap' \<and> mset heap = add_mset item (mset heap')
         \<and> (\<forall>y \<in> set heap. key item \<le> key y)"
proof -
  have ne: "heap \<noteq> []" using pop by (auto simp: heappop_def)
  show ?thesis
  proof (cases "butlast heap = []")
    case True
    then have "heap = [last heap]" using ne
      by (metis append_butlast_last_id append_Nil)
    moreover have "item = last heap" and "heap' = []"
      using pop ne True by (simp_all add: heappop_def Let_def)
    ultimately show ?thesis
      by (metis heap_ok_def length_0_conv less_nat_zero_code list.size(3) mset.simps(1,2)
          empty_iff insert_iff list.set(1,2) order_refl)
  next
    case False
    define b where "b = butlast heap"
    define l where "l = last heap"
    have heap: "heap = b @ [l]" using ne by (simp add: b_def l_def)
    have bne: "b \<noteq> []" using False by (simp add: b_def)
    have item: "item = b ! 0"
      and heap': "heap' = siftup (\<lambda>a b. key a < key b) (b[0 := l]) 0"
      using pop ne False by (simp_all add: heappop_def Let_def b_def l_def)
    have okb: "heap_ok key b"
      unfolding heap_ok_def
    proof (intro allI impI)
      fix i assume i: "0 < i \<and> i < length b"
      then have "(i - 1) div 2 < length b" by arith
      then show "key (b ! ((i - 1) div 2)) \<le> key (b ! i)"
        using ok i unfolding heap_ok_def heap
        by (metis (no_types, lifting) length_append_singleton less_Suc_eq nth_append)
    qed
    have hd0: "hole_down key (b[0 := l]) 0"
      using okb bne unfolding hole_down_def heap_ok_def by (auto simp: nth_list_update)
    obtain h1 p1 where sl: "siftup_loop (\<lambda>a b. key a < key b) (b[0 := l]) 0 = (h1, p1)"
      by (cases "siftup_loop (\<lambda>a b. key a < key b) (b[0 := l]) 0") auto
    have props: "hole_down key h1 p1" "length h1 \<le> 2 * p1 + 1" "length h1 = length b"
        "\<And>v. mset (h1[p1 := v]) = mset (b[0 := v])"
      using siftup_loop_props[OF hd0 sl] by simp_all
    have p1l: "p1 < length h1" using props(1) by (simp add: hole_down_def)
    have heap'2: "heap' = siftdown_loop (\<lambda>a b. key a < key b) (h1[p1 := l]) 0 p1 l"
      using heap' sl bne p1l by (simp add: siftup_def siftdown_def)
    have "heap_ok key heap'"
      unfolding heap'2
      by (rule heap_ok_siftdown_loop) (rule hole_down_leaf[OF props(1,2)])
    moreover have "mset heap' = mset (b[0 := l])"
      unfolding heap'2 using p1l props(4) by (simp add: mset_siftdown_loop)
    then have "mset heap = add_mset item (mset heap')"
      using bne unfolding heap item by (simp add: mset_update)
    moreover have "\<forall>y \<in> set heap. key item \<le> key y"
    proof
      fix y assume "y \<in> set heap"
      then obtain i where "i < length heap" "heap ! i = y"
        by (auto simp: in_set_conv_nth)
      moreover have "item = heap ! 0" using bne by (simp add: heap item nth_append)
      ultimately show "key item \<le> key y"
        using heap_ok_root[OF ok] by auto
    qed
    ultimately show ?thesis by simp
  qed
qed

lemma heappop_None: "heappop lt heap = None \<longleftrightarrow> heap = []"
  by (simp add: heappop_def Let_def)

section \<open>Rotation operators\<close>

lemma mul_RotateLeft: "mul d RotateLeft = Direction (- dir_y d) (- dir_x d)"
  by (simp add: mul_def RotateLeft_def)

lemma mul_RotateRight: "mul d RotateRight = Direction (dir_y d) (dir_x d)"
  by (simp add: mul_def RotateRight_def)

text \<open>
  C1. The claim is that rotating left then right, or right then left, gives the heading
  back. The program's operators do not: on the heading \<open>(1, 0)\<close> the left rotation gives
  \<open>(0, -1)\<close> and the right rotation of that gives \<open>(-1, 0)\<close>, the opposite heading, and
  the same in the other order.
\<close>

theorem rotate_left_right_opposite:
  "mul (mul (Direction 1 0) RotateLeft) RotateRight = Direction (- 1) 0
   \<and> mul (mul (Direction 1 0) RotateRight) RotateLeft = Direction (- 1) 0
   \<and> mul (mul (Direction 1 0) RotateLeft) RotateRight \<noteq> Direction 1 0
   \<and> mul (mul (Direction 1 0) RotateRight) RotateLeft \<noteq> Direction 1 0"
  by (simp add: mul_RotateLeft mul_RotateRight)

text \<open>
  C8. Each of the two operators maps the set of the four cardinal headings one-to-one
  onto itself, and applying the same operator four times to a cardinal heading gives
  that heading back.
\<close>

theorem rotation_bijection_four_times:
  "bij_betw (\<lambda>d. mul d RotateLeft) cardinals cardinals
   \<and> bij_betw (\<lambda>d. mul d RotateRight) cardinals cardinals
   \<and> (\<forall>d \<in> cardinals.
        mul (mul (mul (mul d RotateLeft) RotateLeft) RotateLeft) RotateLeft = d
      \<and> mul (mul (mul (mul d RotateRight) RotateRight) RotateRight) RotateRight = d)"
proof -
  have inj_l: "inj_on (\<lambda>d. mul d RotateLeft) cardinals"
    by (rule inj_onI) (auto simp: mul_RotateLeft cardinals_def)
  have inj_r: "inj_on (\<lambda>d. mul d RotateRight) cardinals"
    by (rule inj_onI) (auto simp: mul_RotateRight cardinals_def)
  have img_l: "(\<lambda>d. mul d RotateLeft) ` cardinals = cardinals"
    by (auto simp: mul_RotateLeft cardinals_def image_def)
  have img_r: "(\<lambda>d. mul d RotateRight) ` cardinals = cardinals"
    by (auto simp: mul_RotateRight cardinals_def image_def)
  have four: "\<forall>d \<in> cardinals.
        mul (mul (mul (mul d RotateLeft) RotateLeft) RotateLeft) RotateLeft = d
      \<and> mul (mul (mul (mul d RotateRight) RotateRight) RotateRight) RotateRight = d"
    by (simp add: mul_RotateLeft mul_RotateRight)
  show ?thesis
    using inj_l inj_r img_l img_r four by (simp add: bij_betw_def)
qed

theorem rotation_bijection_four_times_witness:
  "Direction 1 0 \<in> cardinals
   \<and> mul (mul (mul (mul (Direction 1 0) RotateLeft) RotateLeft) RotateLeft) RotateLeft
       = Direction 1 0
   \<and> mul (mul (mul (mul (Direction 1 0) RotateRight) RotateRight) RotateRight) RotateRight
       = Direction 1 0
   \<and> mul (Direction 1 0) RotateLeft \<in> cardinals
   \<and> mul (Direction 1 0) RotateRight \<in> cardinals"
proof -
  have mem: "Direction 1 0 \<in> cardinals"
    by (simp add: cardinals_def)
  have img: "mul (Direction 1 0) RotateLeft \<in> cardinals
      \<and> mul (Direction 1 0) RotateRight \<in> cardinals"
    using rotation_bijection_four_times mem by (auto simp: bij_betw_def)
  show ?thesis
    using rotation_bijection_four_times mem img by blast
qed

section \<open>Walks and the invariant of the searches\<close>

lemma mem_diff_single: "x \<in># M \<Longrightarrow> x \<noteq> y \<Longrightarrow> x \<in># M - {#y#}"
  by (simp add: in_diff_count)

lemma walk_append:
  "walk m s (xs @ ys) = (case walk m s xs of None \<Rightarrow> None | Some t \<Rightarrow> walk m t ys)"
  by (induction xs arbitrary: s) auto

lemma walk_snoc:
  "walk m s (xs @ [mv]) = Some t \<longleftrightarrow>
     (\<exists>c. walk m s xs = Some c \<and> \<not> is_wall m (snd c) \<and> t = successor mv c)"
  by (auto simp: walk_append split: option.splits)

lemma path_cost_append [simp]: "path_cost (xs @ ys) = path_cost xs + path_cost ys"
  by (simp add: path_cost_def)

lemma path_cost_simps [simp]:
  "path_cost [] = 0" "path_cost (mv # mvs) = move_cost mv + path_cost mvs"
  by (simp_all add: path_cost_def)

lemma move_cost_pos: "0 < move_cost mv"
  by (cases mv) (simp_all add: COST_FORWARD_def COST_ROTATE_def)

lemma path_cost_nonneg: "0 \<le> path_cost mvs"
  by (induction mvs) (auto simp: less_imp_le[OF move_cost_pos] intro: add_nonneg_nonneg)

lemma successor_cardinal: "fst s \<in> cardinals \<Longrightarrow> fst (successor mv s) \<in> cardinals"
  by (cases s; cases mv) (auto simp: cardinals_def mul_RotateLeft mul_RotateRight)

lemma walk_cardinal: "walk m s mvs = Some t \<Longrightarrow> fst s \<in> cardinals \<Longrightarrow> fst t \<in> cardinals"
proof (induction mvs arbitrary: s)
  case Nil
  then show ?case by simp
next
  case (Cons mv mvs)
  from Cons.prems(1) have "walk m (successor mv s) mvs = Some t"
    by (simp split: if_splits)
  then show ?case
    using Cons.IH successor_cardinal[OF Cons.prems(2)] by blast
qed

lemma consistent_step:
  assumes "consistent hfun" and "fst s \<in> cardinals"
  shows "hfun (snd s) \<le> move_cost mv + hfun (snd (successor mv s))"
proof (cases s)
  case (Pair d p)
  then have "hfun p \<le> hfun (add p d) + 1"
    using assms unfolding consistent_def by simp
  then show ?thesis
    using Pair by (cases mv) (simp_all add: COST_FORWARD_def COST_ROTATE_def)
qed

lemma consistent_walk:
  assumes "consistent hfun"
  shows "walk m s mvs = Some t \<Longrightarrow> fst s \<in> cardinals
           \<Longrightarrow> hfun (snd s) \<le> path_cost mvs + hfun (snd t)"
proof (induction mvs arbitrary: s)
  case Nil
  then show ?case by simp
next
  case (Cons mv mvs)
  from Cons.prems have w: "walk m (successor mv s) mvs = Some t"
    by (simp split: if_splits)
  have "hfun (snd (successor mv s)) \<le> path_cost mvs + hfun (snd t)"
    using Cons.IH[OF w] successor_cardinal[OF Cons.prems(2)] by simp
  then show ?case
    using consistent_step[OF assms Cons.prems(2), of mv] by simp
qed

lemma frontier:
  assumes inv: "search_inv m s0 opn cl G"
  shows "walk m s0 mvs = Some t \<Longrightarrow> t \<notin> cl \<Longrightarrow>
     \<exists>xs ys g s. mvs = xs @ ys \<and> walk m s0 xs = Some s \<and> walk m s ys = Some t
        \<and> s \<notin> cl \<and> (g, s) \<in># opn \<and> g \<le> path_cost xs"
proof (induction mvs arbitrary: t rule: rev_induct)
  case Nil
  then have "t = s0" by simp
  then have "(0, s0) \<in># opn" using inv Nil.prems by (auto simp: search_inv_def)
  then show ?case using \<open>t = s0\<close> Nil.prems
    by (intro exI[of _ "[]"] exI[of _ "0::int"] exI[of _ s0]) simp
next
  case (snoc mv mvs)
  from snoc.prems(1) obtain c where c: "walk m s0 mvs = Some c" "\<not> is_wall m (snd c)"
      "t = successor mv c"
    by (auto simp: walk_snoc)
  show ?case
  proof (cases "c \<in> cl")
    case True
    then have "(G c + move_cost mv, t) \<in># opn"
      using inv c snoc.prems(2) unfolding search_inv_def by blast
    moreover have "G c \<le> path_cost mvs"
      using inv True c(1) unfolding search_inv_def by blast
    ultimately show ?thesis
      using snoc.prems
      by (intro exI[of _ "mvs @ [mv]"] exI[of _ "[]"] exI[of _ "G c + move_cost mv"] exI[of _ t])
         simp
  next
    case False
    from snoc.IH[OF c(1) False] obtain xs ys g s where
      s: "mvs = xs @ ys" "walk m s0 xs = Some s" "walk m s ys = Some c"
         "s \<notin> cl" "(g, s) \<in># opn" "g \<le> path_cost xs"
      by blast
    have "walk m s (ys @ [mv]) = Some t"
      using s(3) c by (simp add: walk_snoc)
    then show ?thesis
      using s by (intro exI[of _ xs] exI[of _ "ys @ [mv]"] exI[of _ g] exI[of _ s]) simp
  qed
qed

lemma popped_optimal:
  assumes inv: "search_inv m s0 opn cl G"
    and cons: "consistent hfun"
    and card0: "fst s0 \<in> cardinals"
    and mn: "\<forall>n \<in># opn. g + hfun (snd s) \<le> fst n + hfun (snd (snd n))"
    and w: "walk m s0 mvs = Some t" and t: "t \<notin> cl" and ht: "hfun (snd t) = hfun (snd s)"
  shows "g \<le> path_cost mvs"
proof -
  from frontier[OF inv w t] obtain xs ys g' s' where
    s: "mvs = xs @ ys" "walk m s0 xs = Some s'" "walk m s' ys = Some t"
       "(g', s') \<in># opn" "g' \<le> path_cost xs"
    by blast
  have "fst s' \<in> cardinals" using walk_cardinal[OF s(2) card0] .
  then have "hfun (snd s') \<le> path_cost ys + hfun (snd t)"
    using consistent_walk[OF cons s(3)] by simp
  moreover have "g + hfun (snd s) \<le> g' + hfun (snd s')"
    using mn s(4) by force
  ultimately show ?thesis using s(1,5) ht by simp
qed

lemma search_inv_skip:
  assumes inv: "search_inv m s0 opn cl G" and n: "n \<in># opn" and c: "snd n \<in> cl"
  shows "search_inv m s0 (opn - {#n#}) cl G"
proof -
  have keep: "\<And>x. x \<in># opn \<Longrightarrow> snd x \<notin> cl \<Longrightarrow> x \<in># opn - {#n#}"
    using c by (auto intro: mem_diff_single)
  have sub: "\<And>x. x \<in># opn - {#n#} \<Longrightarrow> x \<in># opn"
    by (rule in_diffD)
  show ?thesis
    unfolding search_inv_def
  proof (intro conjI)
    show "\<forall>n \<in># opn - {#n#}. \<exists>mvs. walk m s0 mvs = Some (snd n) \<and> path_cost mvs = fst n"
      using inv sub unfolding search_inv_def by blast
    show "\<forall>c \<in> cl. snd c \<noteq> end_cell m"
      using inv unfolding search_inv_def by blast
    show "s0 \<in> cl \<or> (0, s0) \<in># opn - {#n#}"
      using inv keep[of "(0, s0)"] unfolding search_inv_def by auto
    show "\<forall>c \<in> cl. \<forall>mvs. walk m s0 mvs = Some c \<longrightarrow> G c \<le> path_cost mvs"
      using inv unfolding search_inv_def by blast
    show "\<forall>c \<in> cl. \<not> is_wall m (snd c) \<longrightarrow>
           (\<forall>mv. successor mv c \<in> cl \<or> (G c + move_cost mv, successor mv c) \<in># opn - {#n#})"
    proof (intro ballI impI allI)
      fix c mv assume "c \<in> cl" "\<not> is_wall m (snd c)"
      then have "successor mv c \<in> cl \<or> (G c + move_cost mv, successor mv c) \<in># opn"
        using inv unfolding search_inv_def by blast
      then show "successor mv c \<in> cl \<or> (G c + move_cost mv, successor mv c) \<in># opn - {#n#}"
        using keep[of "(G c + move_cost mv, successor mv c)"] by auto
    qed
  qed
qed

lemma expand_mem:
  "\<not> is_wall m (snd s) \<Longrightarrow> (g + move_cost mv, successor mv s) \<in># expand m (g, s)"
  by (cases mv) (simp_all add: expand_def)

lemma expand_cases:
  assumes "x \<in># expand m (g, s)"
  shows "\<not> is_wall m (snd s) \<and> (\<exists>mv. x = (g + move_cost mv, successor mv s))"
proof -
  have nw: "\<not> is_wall m (snd s)"
    using assms by (auto simp: expand_def split: if_splits)
  then consider "x = (g + move_cost Forward, successor Forward s)"
    | "x = (g + move_cost TurnLeft, successor TurnLeft s)"
    | "x = (g + move_cost TurnRight, successor TurnRight s)"
    using assms by (auto simp: expand_def)
  then have "\<exists>mv. x = (g + move_cost mv, successor mv s)"
    by cases blast+
  then show ?thesis using nw by simp
qed

lemma search_inv_close:
  assumes inv: "search_inv m s0 opn cl G"
    and cons: "consistent hfun"
    and card0: "fst s0 \<in> cardinals"
    and n: "(g, s) \<in># opn" and nc: "s \<notin> cl" and ne: "snd s \<noteq> end_cell m"
    and mn: "\<forall>n \<in># opn. g + hfun (snd s) \<le> fst n + hfun (snd (snd n))"
  shows "search_inv m s0 ((opn - {#(g, s)#}) + expand m (g, s)) (insert s cl) (G(s := g))"
proof -
  let ?opn = "(opn - {#(g, s)#}) + expand m (g, s)"
  have keep: "\<And>x. x \<in># opn \<Longrightarrow> snd x \<noteq> s \<Longrightarrow> x \<in># ?opn"
    by (auto intro: mem_diff_single)
  have old: "\<And>x. x \<in># opn \<Longrightarrow> \<exists>mvs. walk m s0 mvs = Some (snd x) \<and> path_cost mvs = fst x"
    using inv unfolding search_inv_def by blast
  from old[OF n] obtain ps where ps: "walk m s0 ps = Some s" "path_cost ps = g" by auto
  show ?thesis
    unfolding search_inv_def
  proof (intro conjI)
    show "\<forall>n \<in># ?opn. \<exists>mvs. walk m s0 mvs = Some (snd n) \<and> path_cost mvs = fst n"
    proof
      fix x assume "x \<in># ?opn"
      then consider "x \<in># opn" | "x \<in># expand m (g, s)"
        by (auto dest: in_diffD)
      then show "\<exists>mvs. walk m s0 mvs = Some (snd x) \<and> path_cost mvs = fst x"
      proof cases
        case 1
        then show ?thesis by (rule old)
      next
        case 2
        from expand_cases[OF 2] obtain mv where
          mv: "\<not> is_wall m (snd s)" "x = (g + move_cost mv, successor mv s)" by blast
        have "walk m s0 (ps @ [mv]) = Some (successor mv s)"
          using ps(1) mv(1) by (simp add: walk_snoc)
        then show ?thesis using mv(2) ps(2)
          by (intro exI[of _ "ps @ [mv]"]) simp
      qed
    qed
    show "\<forall>c \<in> insert s cl. snd c \<noteq> end_cell m"
      using inv ne unfolding search_inv_def by blast
    show "s0 \<in> insert s cl \<or> (0, s0) \<in># ?opn"
      using inv keep[of "(0, s0)"] unfolding search_inv_def by auto
    show "\<forall>c \<in> insert s cl. \<forall>mvs. walk m s0 mvs = Some c \<longrightarrow> (G(s := g)) c \<le> path_cost mvs"
    proof (intro ballI allI impI)
      fix c mvs assume c: "c \<in> insert s cl" and w: "walk m s0 mvs = Some c"
      show "(G(s := g)) c \<le> path_cost mvs"
      proof (cases "c = s")
        case True
        then show ?thesis
          using popped_optimal[OF inv cons card0 mn, of mvs s] w nc by simp
      next
        case False
        then show ?thesis using inv c w unfolding search_inv_def by auto
      qed
    qed
    show "\<forall>c \<in> insert s cl. \<not> is_wall m (snd c) \<longrightarrow>
           (\<forall>mv. successor mv c \<in> insert s cl
              \<or> ((G(s := g)) c + move_cost mv, successor mv c) \<in># ?opn)"
    proof (intro ballI allI impI)
      fix c mv assume c: "c \<in> insert s cl" and nw: "\<not> is_wall m (snd c)"
      show "successor mv c \<in> insert s cl
              \<or> ((G(s := g)) c + move_cost mv, successor mv c) \<in># ?opn"
      proof (cases "c = s")
        case True
        then show ?thesis using expand_mem[OF nw, of g mv] by simp
      next
        case False
        then have ccl: "c \<in> cl" using c by simp
        then have "successor mv c \<in> cl \<or> (G c + move_cost mv, successor mv c) \<in># opn"
          using inv nw unfolding search_inv_def by blast
        then show ?thesis
          using keep[of "(G c + move_cost mv, successor mv c)"] False by auto
      qed
    qed
  qed
qed

section \<open>The cost that \<open>find_astar\<close> returns\<close>

lemma astar_lt_key: "astar_lt = (\<lambda>a b. a_f a < a_f b)"
  by (intro ext) (simp add: astar_lt_def)

lemma distance_to_end_manhattan: "distance_to_end m = manhattan (end_cell m)"
  by (intro ext) (simp add: distance_to_end_def manhattan_def)

lemma consistent_manhattan: "consistent (manhattan a)"
  unfolding consistent_def
proof (intro allI impI)
  fix p d assume "d \<in> cardinals"
  then show "manhattan a p \<le> manhattan a (add p d) + 1"
    by (auto simp: cardinals_def manhattan_def add_def)
qed

lemma closed_set_update [simp]: "closed_set (cl(k \<mapsto> True)) = insert k (closed_set cl)"
  by (auto simp: closed_set_def closed_get_def)

lemma closed_set_empty [simp]: "closed_set Map.empty = {}"
  by (simp add: closed_set_def closed_get_def)

lemma mset_eq_set: "mset xs = add_mset x (mset ys) \<Longrightarrow> set xs = insert x (set ys)"
  by (metis set_mset_mset set_mset_add_mset_insert)

lemma while_loop_Finished:
  assumes "while_loop step n st = Finished r" and "P st"
    and "\<And>s s'. P s \<Longrightarrow> step s = Running s' \<Longrightarrow> P s'"
  shows "\<exists>s. P s \<and> step s = Finished r"
  using assms(1,2)
proof (induction n arbitrary: st)
  case 0
  then show ?case by simp
next
  case (Suc n)
  show ?case
  proof (cases "step st")
    case (Running st')
    then show ?thesis using Suc assms(3) by auto
  next
    case (Finished r')
    then show ?thesis using Suc by auto
  qed
qed

lemma while_loop_Running:
  assumes "while_loop step n st = Running st'" and "P st"
    and "\<And>s s'. P s \<Longrightarrow> step s = Running s' \<Longrightarrow> P s'"
  shows "P st'"
  using assms(1,2)
proof (induction n arbitrary: st)
  case 0
  then show ?case by simp
next
  case (Suc n)
  show ?case
  proof (cases "step st")
    case (Running s1)
    then show ?thesis using Suc assms(3) by auto
  next
    case (Finished r')
    then show ?thesis using Suc by auto
  qed
qed

lemma astar_step_cases:
  assumes "a_open st \<noteq> []"
  obtains current open1 where "heappop astar_lt (a_open st) = Some (current, open1)"
    and "astar_step maze st =
      (if a_point current = end_cell maze then Finished (Inr (a_g current, a_trail current))
       else if closed_get (a_closed st) (a_direction current, a_point current)
         then Running \<lparr>a_open = open1, a_closed = a_closed st\<rparr>
       else if is_wall maze (a_point current)
         then Running \<lparr>a_open = open1,
                a_closed = (a_closed st)((a_direction current, a_point current) \<mapsto> True)\<rparr>
       else Running \<lparr>a_open = heappush astar_lt (heappush astar_lt (heappush astar_lt open1
                  (astar_forward maze current)) (astar_rotate RotateLeft current))
                  (astar_rotate RotateRight current),
                a_closed = (a_closed st)((a_direction current, a_point current) \<mapsto> True)\<rparr>)"
proof -
  obtain current open1 where pop: "heappop astar_lt (a_open st) = Some (current, open1)"
    using assms by (cases "heappop astar_lt (a_open st)") (auto simp: heappop_None)
  show ?thesis
    by (rule that[OF pop])
       (simp add: astar_step_def assms pop Let_def astar_forward_def astar_rotate_def)
qed

lemma astar_view_forward:
  "astar_view (astar_forward m n)
     = (fst (astar_view n) + move_cost Forward, successor Forward (snd (astar_view n)))"
  by (simp add: astar_view_def astar_forward_def)

lemma astar_view_rotate:
  "astar_view (astar_rotate RotateLeft n)
     = (fst (astar_view n) + move_cost TurnLeft, successor TurnLeft (snd (astar_view n)))"
  "astar_view (astar_rotate RotateRight n)
     = (fst (astar_view n) + move_cost TurnRight, successor TurnRight (snd (astar_view n)))"
  by (simp_all add: astar_view_def astar_rotate_def)

lemma astar_pop_facts:
  assumes inv: "astar_inv m s0 st"
    and pop: "heappop astar_lt (a_open st) = Some (current, open1)"
  shows "heap_ok a_f open1"
    and "mset (a_open st) = add_mset current (mset open1)"
    and "\<forall>n \<in># image_mset astar_view (mset (a_open st)).
           fst (astar_view current) + distance_to_end m (snd (snd (astar_view current)))
             \<le> fst n + distance_to_end m (snd (snd n))"
    and "image_mset astar_view (mset open1)
           = image_mset astar_view (mset (a_open st)) - {#astar_view current#}"
    and "astar_view current \<in># image_mset astar_view (mset (a_open st))"
proof -
  have ok: "heap_ok a_f (a_open st)" using inv by (simp add: astar_inv_def)
  have hs: "\<And>n. n \<in> set (a_open st) \<Longrightarrow> a_h n = distance_to_end m (a_point n)"
    using inv by (simp add: astar_inv_def)
  note pp = heappop_props[OF ok pop[unfolded astar_lt_key]]
  show "heap_ok a_f open1" using pp by simp
  show ms: "mset (a_open st) = add_mset current (mset open1)" using pp by simp
  then have cur: "current \<in> set (a_open st)"
    using mset_eq_set by fastforce
  show "\<forall>n \<in># image_mset astar_view (mset (a_open st)).
           fst (astar_view current) + distance_to_end m (snd (snd (astar_view current)))
             \<le> fst n + distance_to_end m (snd (snd n))"
  proof
    fix n assume "n \<in># image_mset astar_view (mset (a_open st))"
    then obtain y where y: "y \<in> set (a_open st)" "n = astar_view y" by auto
    have "a_f current \<le> a_f y" using pp y(1) by simp
    then show "fst (astar_view current) + distance_to_end m (snd (snd (astar_view current)))
             \<le> fst n + distance_to_end m (snd (snd n))"
      using hs[OF y(1)] hs[OF cur] y(2) by (simp add: astar_view_def a_f_def)
  qed
  show "image_mset astar_view (mset open1)
           = image_mset astar_view (mset (a_open st)) - {#astar_view current#}"
    using ms by simp
  show "astar_view current \<in># image_mset astar_view (mset (a_open st))"
    using ms by simp
qed

lemma astar_inv_step:
  assumes inv: "astar_inv m s0 st" and card0: "fst s0 \<in> cardinals"
    and step: "astar_step m st = Running st'"
  shows "astar_inv m s0 st'"
proof -
  have ne: "a_open st \<noteq> []" using step by (auto simp: astar_step_def)
  obtain current open1 where pop: "heappop astar_lt (a_open st) = Some (current, open1)"
    and eq: "astar_step m st =
      (if a_point current = end_cell m then Finished (Inr (a_g current, a_trail current))
       else if closed_get (a_closed st) (a_direction current, a_point current)
         then Running \<lparr>a_open = open1, a_closed = a_closed st\<rparr>
       else if is_wall m (a_point current)
         then Running \<lparr>a_open = open1,
                a_closed = (a_closed st)((a_direction current, a_point current) \<mapsto> True)\<rparr>
       else Running \<lparr>a_open = heappush astar_lt (heappush astar_lt (heappush astar_lt open1
                  (astar_forward m current)) (astar_rotate RotateLeft current))
                  (astar_rotate RotateRight current),
                a_closed = (a_closed st)((a_direction current, a_point current) \<mapsto> True)\<rparr>)"
    using astar_step_cases[OF ne] by metis
  note pf = astar_pop_facts[OF inv pop]
  obtain G where G: "search_inv m s0 (image_mset astar_view (mset (a_open st)))
      (closed_set (a_closed st)) G"
    using inv by (auto simp: astar_inv_def)
  have hs: "\<And>n. n \<in> set (a_open st) \<Longrightarrow> a_h n = distance_to_end m (a_point n)"
    using inv by (simp add: astar_inv_def)
  have cur: "current \<in> set (a_open st)"
    using mset_eq_set[OF pf(2)] by simp
  have sub: "\<And>n. n \<in> set open1 \<Longrightarrow> n \<in> set (a_open st)"
    using mset_eq_set[OF pf(2)] by simp
  let ?s = "(a_direction current, a_point current)"
  have view: "astar_view current = (a_g current, ?s)" by (simp add: astar_view_def)
  have notend: "a_point current \<noteq> end_cell m" using step eq by (auto split: if_splits)
  show ?thesis
  proof (cases "closed_get (a_closed st) ?s")
    case True
    then have st': "st' = \<lparr>a_open = open1, a_closed = a_closed st\<rparr>"
      using step eq notend by simp
    have "search_inv m s0 (image_mset astar_view (mset open1)) (closed_set (a_closed st)) G"
      unfolding pf(4)
      by (rule search_inv_skip[OF G pf(5)]) (simp add: view closed_set_def True)
    then show ?thesis
      unfolding astar_inv_def st' using pf(1) hs sub by auto
  next
    case False
    then have nc: "?s \<notin> closed_set (a_closed st)" by (simp add: closed_set_def)
    have close: "search_inv m s0
        ((image_mset astar_view (mset (a_open st)) - {#(a_g current, ?s)#})
           + expand m (a_g current, ?s))
        (insert ?s (closed_set (a_closed st))) (G(?s := a_g current))"
      apply (rule search_inv_close[OF G consistent_manhattan[of "end_cell m"] card0])
      using pf(5) view apply simp
      using nc apply simp
      using notend apply simp
      using pf(3) view by (simp add: distance_to_end_manhattan)
    show ?thesis
    proof (cases "is_wall m (a_point current)")
      case True
      then have st': "st' = \<lparr>a_open = open1,
          a_closed = (a_closed st)(?s \<mapsto> True)\<rparr>"
        using step eq notend False by simp
      have "search_inv m s0 (image_mset astar_view (mset open1))
          (closed_set ((a_closed st)(?s \<mapsto> True))) (G(?s := a_g current))"
        using close True by (simp add: pf(4) view expand_def)
      then show ?thesis
        unfolding astar_inv_def st' using pf(1) hs sub by auto
    next
      case nw: False
      let ?o4 = "heappush astar_lt (heappush astar_lt (heappush astar_lt open1
                  (astar_forward m current)) (astar_rotate RotateLeft current))
                  (astar_rotate RotateRight current)"
      have st': "st' = \<lparr>a_open = ?o4, a_closed = (a_closed st)(?s \<mapsto> True)\<rparr>"
        using step eq notend False nw by simp
      have ms: "mset ?o4 = add_mset (astar_rotate RotateRight current)
          (add_mset (astar_rotate RotateLeft current)
            (add_mset (astar_forward m current) (mset open1)))"
        by (simp add: mset_heappush)
      have ok: "heap_ok a_f ?o4"
        unfolding astar_lt_key by (intro heap_ok_heappush pf(1))
      have hs': "\<forall>n \<in> set ?o4. a_h n = distance_to_end m (a_point n)"
      proof
        fix n assume "n \<in> set ?o4"
        then have "n \<in># mset ?o4" by simp
        then have "n = astar_rotate RotateRight current \<or> n = astar_rotate RotateLeft current
            \<or> n = astar_forward m current \<or> n \<in> set open1"
          unfolding ms by auto
        then show "a_h n = distance_to_end m (a_point n)"
          using hs[OF cur] hs sub by (auto simp: astar_rotate_def astar_forward_def)
      qed
      have "image_mset astar_view (mset ?o4)
          = (image_mset astar_view (mset (a_open st)) - {#(a_g current, ?s)#})
             + expand m (a_g current, ?s)"
        unfolding ms using nw pf(4)
        by (simp add: expand_def astar_view_forward astar_view_rotate view)
      then have "search_inv m s0 (image_mset astar_view (mset ?o4))
          (closed_set ((a_closed st)(?s \<mapsto> True))) (G(?s := a_g current))"
        using close by simp
      then show ?thesis
        unfolding astar_inv_def st' using ok hs' by auto
    qed
  qed
qed

lemma astar_inv_init:
  "astar_inv m (d, p) (astar_init m p d)"
proof -
  let ?n = "\<lparr>a_direction = d, a_point = p, a_g = 0, a_h = distance_to_end m p,
      a_trail = [p \<mapsto> 1]\<rparr>"
  have ok: "heap_ok a_f (heappush astar_lt [] ?n)"
    unfolding astar_lt_key by (rule heap_ok_heappush) (simp add: heap_ok_def)
  have ms: "mset (heappush astar_lt [] ?n) = {#?n#}"
    by (simp add: mset_heappush)
  then have st: "set (heappush astar_lt [] ?n) = {?n}"
    by (metis set_mset_mset set_mset_single)
  have "search_inv m (d, p) {#(0, (d, p))#} {} (\<lambda>_. 0)"
    unfolding search_inv_def by (auto intro: exI[of _ "[]"])
  then show ?thesis
    unfolding astar_inv_def astar_init_def using ok ms st
    by (auto simp: astar_view_def)
qed

lemma astar_step_final:
  assumes inv: "astar_inv m s0 st" and card0: "fst s0 \<in> cardinals"
    and step: "astar_step m st = Finished (Inr (c, t))"
  shows "best_cost m s0 c"
proof -
  have ne: "a_open st \<noteq> []" using step by (auto simp: astar_step_def)
  obtain current open1 where pop: "heappop astar_lt (a_open st) = Some (current, open1)"
    and eq: "astar_step m st =
      (if a_point current = end_cell m then Finished (Inr (a_g current, a_trail current))
       else if closed_get (a_closed st) (a_direction current, a_point current)
         then Running \<lparr>a_open = open1, a_closed = a_closed st\<rparr>
       else if is_wall m (a_point current)
         then Running \<lparr>a_open = open1,
                a_closed = (a_closed st)((a_direction current, a_point current) \<mapsto> True)\<rparr>
       else Running \<lparr>a_open = heappush astar_lt (heappush astar_lt (heappush astar_lt open1
                  (astar_forward m current)) (astar_rotate RotateLeft current))
                  (astar_rotate RotateRight current),
                a_closed = (a_closed st)((a_direction current, a_point current) \<mapsto> True)\<rparr>)"
    using astar_step_cases[OF ne] by metis
  note pf = astar_pop_facts[OF inv pop]
  obtain G where G: "search_inv m s0 (image_mset astar_view (mset (a_open st)))
      (closed_set (a_closed st)) G"
    using inv by (auto simp: astar_inv_def)
  have atend: "a_point current = end_cell m" and c: "c = a_g current"
    using step eq by (auto split: if_splits)
  let ?s = "(a_direction current, a_point current)"
  have view: "astar_view current = (a_g current, ?s)" by (simp add: astar_view_def)
  have "\<exists>mvs. walk m s0 mvs = Some ?s \<and> path_cost mvs = a_g current"
    using G pf(5) unfolding search_inv_def view by fastforce
  then have sound: "\<exists>mvs t. walk m s0 mvs = Some t \<and> snd t = end_cell m \<and> path_cost mvs = c"
    using atend c by auto
  have opt: "\<forall>mvs t. walk m s0 mvs = Some t \<and> snd t = end_cell m \<longrightarrow> c \<le> path_cost mvs"
  proof (intro allI impI)
    fix mvs t assume w: "walk m s0 mvs = Some t \<and> snd t = end_cell m"
    then have tc: "t \<notin> closed_set (a_closed st)"
      using G unfolding search_inv_def by blast
    have mn: "\<forall>n \<in># image_mset astar_view (mset (a_open st)).
        a_g current + manhattan (end_cell m) (snd ?s) \<le> fst n + manhattan (end_cell m) (snd (snd n))"
      using pf(3) by (simp add: view distance_to_end_manhattan)
    show "c \<le> path_cost mvs"
      unfolding c
      by (rule popped_optimal[OF G consistent_manhattan card0 mn _ tc]) (use w atend in simp_all)
  qed
  show ?thesis unfolding best_cost_def using sound opt by simp
qed

lemma find_astar_best:
  assumes "d \<in> cardinals" and "find_astar fuel m p d = Some (Inr (c, t))"
  shows "best_cost m (d, p) c"
proof -
  have fin: "while_loop (astar_step m) fuel (astar_init m p d) = Finished (Inr (c, t))"
    using assms(2) by (simp add: find_astar_def split: outcome.splits)
  have "\<exists>s. astar_inv m (d, p) s \<and> astar_step m s = Finished (Inr (c, t))"
    by (rule while_loop_Finished[where P = "astar_inv m (d, p)", OF fin astar_inv_init])
       (rule astar_inv_step, simp_all add: assms)
  then show ?thesis using astar_step_final assms(1) by fastforce
qed

section \<open>The bookkeeping of \<open>find_djikstra\<close>\<close>

lemma djikstra_lt_key: "djikstra_lt = (\<lambda>a b. d_cost a < d_cost b)"
  by (intro ext) (simp add: djikstra_lt_def)

lemma successors_eq:
  "successors current = [d_forward current, d_rotate RotateLeft current, d_rotate RotateRight current]"
  by (simp add: successors_def d_forward_def d_rotate_def)

lemma visit_Some:
  "tr (d_point current, d_cost current) = Some cur \<Longrightarrow>
     visit current (tr, opn) node = Inr (extend_trails tr cur node, heappush djikstra_lt opn node)"
  by (simp add: visit_def extend_trails_def d_key_def)

lemma extend_trails_other: "k \<noteq> d_key node \<Longrightarrow> extend_trails tr cur node k = tr k"
  by (simp add: extend_trails_def)

lemma d_key_successors:
  "d_key (d_forward current) \<noteq> d_key current"
  "d_key (d_rotate r current) \<noteq> d_key current"
  by (simp_all add: d_key_def d_forward_def d_rotate_def COST_FORWARD_def COST_ROTATE_def)

lemma visit_all_successors:
  assumes "tr (d_point current, d_cost current) = Some cur"
  shows "visit_all current (tr, opn) (successors current)
           = Inr (expand_trails tr cur current, expand_open opn current)"
proof -
  have k: "(d_point current, d_cost current) = d_key current" by (simp add: d_key_def)
  have 1: "extend_trails tr cur (d_forward current) (d_point current, d_cost current) = Some cur"
    using assms d_key_successors(1)[of current]
    by (simp add: k extend_trails_other[OF not_sym])
  have 2: "extend_trails (extend_trails tr cur (d_forward current)) cur
        (d_rotate RotateLeft current) (d_point current, d_cost current) = Some cur"
    using 1 d_key_successors(2)[of RotateLeft current]
    by (simp add: k extend_trails_other[OF not_sym])
  show ?thesis
    by (simp add: successors_eq visit_Some[where tr = tr, OF assms]
        visit_Some[where tr = "extend_trails tr cur (d_forward current)", OF 1]
        visit_Some[where tr = "extend_trails (extend_trails tr cur (d_forward current)) cur
          (d_rotate RotateLeft current)", OF 2]
        expand_trails_def expand_open_def)
qed

lemma djikstra_step_cases [consumes 1, case_names Empty Missing End Skip Wall Expand]:
  assumes "djikstra_step m st = res"
  obtains "d_open st = []" "res = Finished (Inl RouteNotFound)"
  | current open1 where "heappop djikstra_lt (d_open st) = Some (current, open1)"
      "d_trails st (d_key current) = None"
  | current open1 cur where "heappop djikstra_lt (d_open st) = Some (current, open1)"
      "d_trails st (d_key current) = Some cur"
      "d_point current = end_cell m" "res = Finished (Inr (d_cost current, cur))"
  | current open1 cur where "heappop djikstra_lt (d_open st) = Some (current, open1)"
      "d_trails st (d_key current) = Some cur"
      "d_point current \<noteq> end_cell m"
      "closed_get (d_closed st) (d_direction current, d_point current)"
      "res = Running \<lparr>d_open = open1, d_closed = d_closed st, d_trails = d_trails st\<rparr>"
  | current open1 cur where "heappop djikstra_lt (d_open st) = Some (current, open1)"
      "d_trails st (d_key current) = Some cur"
      "d_point current \<noteq> end_cell m"
      "\<not> closed_get (d_closed st) (d_direction current, d_point current)"
      "is_wall m (d_point current)"
      "res = Running \<lparr>d_open = open1,
               d_closed = (d_closed st)((d_direction current, d_point current) \<mapsto> True),
               d_trails = d_trails st\<rparr>"
  | current open1 cur where "heappop djikstra_lt (d_open st) = Some (current, open1)"
      "d_trails st (d_key current) = Some cur"
      "d_point current \<noteq> end_cell m"
      "\<not> closed_get (d_closed st) (d_direction current, d_point current)"
      "\<not> is_wall m (d_point current)"
      "res = Running \<lparr>d_open = expand_open open1 current,
               d_closed = (d_closed st)((d_direction current, d_point current) \<mapsto> True),
               d_trails = expand_trails (d_trails st) cur current\<rparr>"
proof (cases "d_open st = []")
  case True
  then have "res = Finished (Inl RouteNotFound)"
    using assms by (simp add: djikstra_step_def)
  then show ?thesis using True that(1) by simp
next
  case ne: False
  then obtain current open1 where pop: "heappop djikstra_lt (d_open st) = Some (current, open1)"
    by (cases "heappop djikstra_lt (d_open st)") (auto simp: heappop_None)
  show ?thesis
  proof (cases "d_trails st (d_key current)")
    case None
    then show ?thesis using that(2)[OF pop] by simp
  next
    case (Some cur)
    then have cur: "d_trails st (d_point current, d_cost current) = Some cur"
      by (simp add: d_key_def)
    have "djikstra_step m st =
      (if d_point current = end_cell m then Finished (Inr (d_cost current, cur))
       else if closed_get (d_closed st) (d_direction current, d_point current)
         then Running \<lparr>d_open = open1, d_closed = d_closed st, d_trails = d_trails st\<rparr>
       else if is_wall m (d_point current)
         then Running \<lparr>d_open = open1,
               d_closed = (d_closed st)((d_direction current, d_point current) \<mapsto> True),
               d_trails = d_trails st\<rparr>
       else Running \<lparr>d_open = expand_open open1 current,
               d_closed = (d_closed st)((d_direction current, d_point current) \<mapsto> True),
               d_trails = expand_trails (d_trails st) cur current\<rparr>)"
      using ne cur
      by (auto simp: djikstra_step_def pop Let_def
          visit_all_successors[where tr = "d_trails st", OF cur])
    then have eq: "res =
      (if d_point current = end_cell m then Finished (Inr (d_cost current, cur))
       else if closed_get (d_closed st) (d_direction current, d_point current)
         then Running \<lparr>d_open = open1, d_closed = d_closed st, d_trails = d_trails st\<rparr>
       else if is_wall m (d_point current)
         then Running \<lparr>d_open = open1,
               d_closed = (d_closed st)((d_direction current, d_point current) \<mapsto> True),
               d_trails = d_trails st\<rparr>
       else Running \<lparr>d_open = expand_open open1 current,
               d_closed = (d_closed st)((d_direction current, d_point current) \<mapsto> True),
               d_trails = expand_trails (d_trails st) cur current\<rparr>)"
      using assms by simp
    show ?thesis
    proof (cases "d_point current = end_cell m")
      case True
      then show ?thesis using that(3)[OF pop Some] eq by simp
    next
      case ne1: False
      show ?thesis
      proof (cases "closed_get (d_closed st) (d_direction current, d_point current)")
        case True
        then show ?thesis using that(4)[OF pop Some ne1] eq ne1 by simp
      next
        case nc: False
        show ?thesis
        proof (cases "is_wall m (d_point current)")
          case True
          then show ?thesis using that(5)[OF pop Some ne1 nc] eq ne1 nc by simp
        next
          case False
          then show ?thesis using that(6)[OF pop Some ne1 nc] eq ne1 nc by simp
        qed
      qed
    qed
  qed
qed

lemma d_pop_basic:
  assumes inv: "d_basic_inv r st"
    and pop: "heappop djikstra_lt (d_open st) = Some (current, open1)"
  shows "heap_ok d_cost open1"
    and "mset (d_open st) = add_mset current (mset open1)"
    and "set (d_open st) = insert current (set open1)"
    and "\<forall>y \<in> set (d_open st). d_cost current \<le> d_cost y"
    and "d_key current \<in> dom (d_trails st)"
proof -
  have ok: "heap_ok d_cost (d_open st)" using inv by (simp add: d_basic_inv_def)
  note pp = heappop_props[OF ok pop[unfolded djikstra_lt_key]]
  show "heap_ok d_cost open1" using pp by simp
  show ms: "mset (d_open st) = add_mset current (mset open1)" using pp by simp
  show st: "set (d_open st) = insert current (set open1)" by (rule mset_eq_set[OF ms])
  show "\<forall>y \<in> set (d_open st). d_cost current \<le> d_cost y" using pp by simp
  show "d_key current \<in> dom (d_trails st)"
    using inv st by (simp add: d_basic_inv_def)
qed

lemma trails_le_refl: "trails_le tr tr"
  by (simp add: trails_le_def)

lemma trails_le_trans: "trails_le a b \<Longrightarrow> trails_le b c \<Longrightarrow> trails_le a c"
  unfolding trails_le_def by (meson subset_trans)

lemma trails_le_extend: "trails_le tr (extend_trails tr cur node)"
  by (auto simp: trails_le_def extend_trails_def)

lemma trails_le_expand: "trails_le tr (expand_trails tr cur current)"
  unfolding expand_trails_def
  by (blast intro: trails_le_trans trails_le_extend)

lemma trails_le_dom: "trails_le tr tr' \<Longrightarrow> k \<in> dom tr \<Longrightarrow> k \<in> dom tr'"
  unfolding trails_le_def by (metis domD domI)

lemma extend_trails_dom: "d_key node \<in> dom (extend_trails tr cur node)"
  by (simp add: extend_trails_def)

lemma expand_trails_dom:
  "d_key (d_forward current) \<in> dom (expand_trails tr cur current)"
  "d_key (d_rotate RotateLeft current) \<in> dom (expand_trails tr cur current)"
  "d_key (d_rotate RotateRight current) \<in> dom (expand_trails tr cur current)"
proof -
  let ?t1 = "extend_trails tr cur (d_forward current)"
  let ?t2 = "extend_trails ?t1 cur (d_rotate RotateLeft current)"
  let ?t3 = "extend_trails ?t2 cur (d_rotate RotateRight current)"
  have e: "expand_trails tr cur current = ?t3" by (simp add: expand_trails_def)
  have "d_key (d_forward current) \<in> dom ?t2"
    by (rule trails_le_dom[OF trails_le_extend extend_trails_dom])
  then show "d_key (d_forward current) \<in> dom (expand_trails tr cur current)"
    unfolding e by (rule trails_le_dom[OF trails_le_extend])
  show "d_key (d_rotate RotateLeft current) \<in> dom (expand_trails tr cur current)"
    unfolding e by (rule trails_le_dom[OF trails_le_extend extend_trails_dom])
  show "d_key (d_rotate RotateRight current) \<in> dom (expand_trails tr cur current)"
    unfolding e by (rule extend_trails_dom)
qed

lemma set_expand_open:
  "set (expand_open opn current)
     = {d_forward current, d_rotate RotateLeft current, d_rotate RotateRight current} \<union> set opn"
proof -
  have "mset (expand_open opn current) = add_mset (d_rotate RotateRight current)
      (add_mset (d_rotate RotateLeft current) (add_mset (d_forward current) (mset opn)))"
    by (simp add: expand_open_def mset_heappush)
  then have "set_mset (mset (expand_open opn current))
      = {d_forward current, d_rotate RotateLeft current, d_rotate RotateRight current} \<union> set opn"
    by auto
  then show ?thesis by simp
qed

lemma heap_ok_expand_open: "heap_ok d_cost opn \<Longrightarrow> heap_ok d_cost (expand_open opn current)"
  unfolding expand_open_def djikstra_lt_key by (intro heap_ok_heappush)

lemma extend_trails_marks:
  assumes "\<forall>k S. tr k = Some S \<longrightarrow> r \<in> S \<and> fst k \<in> S" and "r \<in> cur"
  shows "\<forall>k S. extend_trails tr cur node k = Some S \<longrightarrow> r \<in> S \<and> fst k \<in> S"
  using assms by (auto simp: extend_trails_def d_key_def split: if_splits)

lemma expand_trails_marks:
  assumes "\<forall>k S. tr k = Some S \<longrightarrow> r \<in> S \<and> fst k \<in> S" and "r \<in> cur"
  shows "\<forall>k S. expand_trails tr cur current k = Some S \<longrightarrow> r \<in> S \<and> fst k \<in> S"
  unfolding expand_trails_def
  by (intro extend_trails_marks assms)

lemma d_basic_step:
  assumes inv: "d_basic_inv r st" and step: "djikstra_step m st = Running st'"
  shows "d_basic_inv r st' \<and> trails_le (d_trails st) (d_trails st')"
  using step
proof (cases rule: djikstra_step_cases)
  case Empty
  then show ?thesis by simp
next
  case (Missing current open1)
  then show ?thesis using d_pop_basic(5)[OF inv Missing(1)] by auto
next
  case (End current open1 cur)
  then show ?thesis by simp
next
  case (Skip current open1 cur)
  note pf = d_pop_basic[OF inv Skip(1)]
  have st': "st' = \<lparr>d_open = open1, d_closed = d_closed st, d_trails = d_trails st\<rparr>"
    using Skip(5) by simp
  show ?thesis
    using inv pf(1,3) unfolding d_basic_inv_def st' trails_le_def by auto
next
  case (Wall current open1 cur)
  note pf = d_pop_basic[OF inv Wall(1)]
  have st': "st' = \<lparr>d_open = open1,
      d_closed = (d_closed st)((d_direction current, d_point current) \<mapsto> True),
      d_trails = d_trails st\<rparr>"
    using Wall(6) by simp
  show ?thesis
    using inv pf(1,3) unfolding d_basic_inv_def st' trails_le_def by auto
next
  case (Expand current open1 cur)
  note pf = d_pop_basic[OF inv Expand(1)]
  let ?tr = "expand_trails (d_trails st) cur current"
  have le: "trails_le (d_trails st) ?tr" by (rule trails_le_expand)
  have r: "r \<in> cur" using inv Expand(2) unfolding d_basic_inv_def by blast
  have keys: "\<forall>n \<in> set (expand_open open1 current). d_key n \<in> dom ?tr"
  proof
    fix n assume "n \<in> set (expand_open open1 current)"
    then consider "n = d_forward current" | "n = d_rotate RotateLeft current"
      | "n = d_rotate RotateRight current" | "n \<in> set open1"
      by (auto simp: set_expand_open)
    then show "d_key n \<in> dom ?tr"
    proof cases
      case 4
      then have "d_key n \<in> dom (d_trails st)"
        using inv pf(3) by (simp add: d_basic_inv_def)
      then show ?thesis by (rule trails_le_dom[OF le])
    qed (simp_all add: expand_trails_dom)
  qed
  have marks: "\<forall>k S. ?tr k = Some S \<longrightarrow> r \<in> S \<and> fst k \<in> S"
    by (rule expand_trails_marks[OF _ r]) (use inv in \<open>simp add: d_basic_inv_def\<close>)
  have st': "st' = \<lparr>d_open = expand_open open1 current,
      d_closed = (d_closed st)((d_direction current, d_point current) \<mapsto> True),
      d_trails = ?tr\<rparr>"
    using Expand(6) by simp
  show ?thesis
    unfolding d_basic_inv_def st'
    using heap_ok_expand_open[OF pf(1)] keys marks le by simp
qed

lemma d_basic_init: "d_basic_inv reindeer (djikstra_init reindeer d)"
proof -
  let ?n = "\<lparr>d_cost = 0, d_direction = d, d_point = reindeer\<rparr>"
  have ok: "heap_ok d_cost (heappush djikstra_lt [] ?n)"
    unfolding djikstra_lt_key by (rule heap_ok_heappush) (simp add: heap_ok_def)
  have "mset (heappush djikstra_lt [] ?n) = add_mset ?n (mset [])"
    by (simp add: mset_heappush)
  then have "set (heappush djikstra_lt [] ?n) = {?n}"
    using mset_eq_set by fastforce
  then show ?thesis
    unfolding d_basic_inv_def djikstra_init_def using ok
    by (auto simp: d_key_def split: if_splits)
qed

lemma d_basic_Finished:
  assumes inv: "d_basic_inv r st" and step: "djikstra_step m st = Finished res"
  shows "(res = Inl RouteNotFound \<and> d_open st = [])
       \<or> (\<exists>c S. res = Inr (c, S) \<and> r \<in> S \<and> end_cell m \<in> S \<and> d_open st \<noteq> [])"
  using step
proof (cases rule: djikstra_step_cases)
  case (Missing current open1)
  then show ?thesis using d_pop_basic(5)[OF inv Missing(1)] by auto
next
  case (End current open1 cur)
  have "r \<in> cur \<and> fst (d_key current) \<in> cur"
    using inv End(2) unfolding d_basic_inv_def by blast
  moreover have "d_open st \<noteq> []" using End(1) by (auto simp: heappop_def)
  ultimately show ?thesis using End by (simp add: d_key_def)
qed simp_all

section \<open>The cost that \<open>find_djikstra\<close> returns\<close>

lemma consistent_zero: "consistent (\<lambda>_. 0)"
  by (simp add: consistent_def)

lemma djikstra_view_successors:
  "djikstra_view (d_forward n)
     = (fst (djikstra_view n) + move_cost Forward, successor Forward (snd (djikstra_view n)))"
  "djikstra_view (d_rotate RotateLeft n)
     = (fst (djikstra_view n) + move_cost TurnLeft, successor TurnLeft (snd (djikstra_view n)))"
  "djikstra_view (d_rotate RotateRight n)
     = (fst (djikstra_view n) + move_cost TurnRight, successor TurnRight (snd (djikstra_view n)))"
  by (simp_all add: djikstra_view_def d_forward_def d_rotate_def)

lemma d_pop_view:
  assumes inv: "d_basic_inv r st"
    and pop: "heappop djikstra_lt (d_open st) = Some (current, open1)"
  shows "\<forall>n \<in># image_mset djikstra_view (mset (d_open st)).
           d_cost current + (\<lambda>_. 0) (d_point current) \<le> fst n + (\<lambda>_. 0) (snd (snd n))"
    and "image_mset djikstra_view (mset open1)
           = image_mset djikstra_view (mset (d_open st)) - {#djikstra_view current#}"
    and "djikstra_view current \<in># image_mset djikstra_view (mset (d_open st))"
proof -
  note pf = d_pop_basic[OF inv pop]
  show "\<forall>n \<in># image_mset djikstra_view (mset (d_open st)).
           d_cost current + (\<lambda>_. 0) (d_point current) \<le> fst n + (\<lambda>_. 0) (snd (snd n))"
    using pf(4) by (auto simp: djikstra_view_def)
  show "image_mset djikstra_view (mset open1)
           = image_mset djikstra_view (mset (d_open st)) - {#djikstra_view current#}"
    using pf(2) by simp
  show "djikstra_view current \<in># image_mset djikstra_view (mset (d_open st))"
    using pf(2) by simp
qed

lemma d_search_close:
  assumes inv: "djikstra_inv m s0 st" and card0: "fst s0 \<in> cardinals"
    and pop: "heappop djikstra_lt (d_open st) = Some (current, open1)"
    and notend: "d_point current \<noteq> end_cell m"
    and nc: "\<not> closed_get (d_closed st) (d_direction current, d_point current)"
  shows "\<exists>G. search_inv m s0
        ((image_mset djikstra_view (mset (d_open st)) - {#djikstra_view current#})
           + expand m (djikstra_view current))
        (closed_set ((d_closed st)((d_direction current, d_point current) \<mapsto> True))) G"
proof -
  have basic: "d_basic_inv (snd s0) st" using inv by (simp add: djikstra_inv_def)
  obtain G where G: "search_inv m s0 (image_mset djikstra_view (mset (d_open st)))
      (closed_set (d_closed st)) G"
    using inv by (auto simp: djikstra_inv_def)
  note pv = d_pop_view[OF basic pop]
  let ?s = "(d_direction current, d_point current)"
  have view: "djikstra_view current = (d_cost current, ?s)" by (simp add: djikstra_view_def)
  have "search_inv m s0
        ((image_mset djikstra_view (mset (d_open st)) - {#(d_cost current, ?s)#})
           + expand m (d_cost current, ?s))
        (insert ?s (closed_set (d_closed st))) (G(?s := d_cost current))"
    apply (rule search_inv_close[OF G consistent_zero card0])
    using pv(3) view apply simp
    using nc apply (simp add: closed_set_def)
    using notend apply simp
    using pv(1) by simp
  then show ?thesis unfolding view by auto
qed

lemma djikstra_inv_step:
  assumes inv: "djikstra_inv m s0 st" and card0: "fst s0 \<in> cardinals"
    and step: "djikstra_step m st = Running st'"
  shows "djikstra_inv m s0 st'"
proof -
  have basic: "d_basic_inv (snd s0) st" using inv by (simp add: djikstra_inv_def)
  have basic': "d_basic_inv (snd s0) st'" using d_basic_step[OF basic step] by simp
  obtain G where G: "search_inv m s0 (image_mset djikstra_view (mset (d_open st)))
      (closed_set (d_closed st)) G"
    using inv by (auto simp: djikstra_inv_def)
  have "\<exists>G. search_inv m s0 (image_mset djikstra_view (mset (d_open st')))
               (closed_set (d_closed st')) G"
    using step
  proof (cases rule: djikstra_step_cases)
    case Empty
    then show ?thesis by simp
  next
    case (Missing current open1)
    then show ?thesis using d_pop_basic(5)[OF basic Missing(1)] by auto
  next
    case (End current open1 cur)
    then show ?thesis by simp
  next
    case (Skip current open1 cur)
    note pv = d_pop_view[OF basic Skip(1)]
    have st': "st' = \<lparr>d_open = open1, d_closed = d_closed st, d_trails = d_trails st\<rparr>"
      using Skip(5) by simp
    have "search_inv m s0 (image_mset djikstra_view (mset open1)) (closed_set (d_closed st)) G"
      unfolding pv(2)
      by (rule search_inv_skip[OF G pv(3)]) (simp add: djikstra_view_def closed_set_def Skip(4))
    then show ?thesis unfolding st' by auto
  next
    case (Wall current open1 cur)
    note pv = d_pop_view[OF basic Wall(1)]
    have st': "st' = \<lparr>d_open = open1,
        d_closed = (d_closed st)((d_direction current, d_point current) \<mapsto> True),
        d_trails = d_trails st\<rparr>"
      using Wall(6) by simp
    have "expand m (djikstra_view current) = {#}"
      using Wall(5) by (simp add: expand_def djikstra_view_def)
    then show ?thesis
      using d_search_close[OF inv card0 Wall(1,3,4)] unfolding st' by (simp add: pv(2))
  next
    case (Expand current open1 cur)
    note pv = d_pop_view[OF basic Expand(1)]
    have st': "st' = \<lparr>d_open = expand_open open1 current,
        d_closed = (d_closed st)((d_direction current, d_point current) \<mapsto> True),
        d_trails = expand_trails (d_trails st) cur current\<rparr>"
      using Expand(6) by simp
    have nw: "\<not> is_wall m (snd (snd (djikstra_view current)))"
      using Expand(5) by (simp add: djikstra_view_def)
    have "image_mset djikstra_view (mset (expand_open open1 current))
        = (image_mset djikstra_view (mset (d_open st)) - {#djikstra_view current#})
           + expand m (djikstra_view current)"
      using nw by (simp add: expand_open_def mset_heappush pv(2) expand_def djikstra_view_successors)
    then show ?thesis
      using d_search_close[OF inv card0 Expand(1,3,4)] unfolding st' by simp
  qed
  then show ?thesis using basic' by (simp add: djikstra_inv_def)
qed

lemma djikstra_inv_init: "djikstra_inv m (d, p) (djikstra_init p d)"
proof -
  let ?n = "\<lparr>d_cost = 0, d_direction = d, d_point = p\<rparr>"
  have ms: "mset (heappush djikstra_lt [] ?n) = {#?n#}"
    by (simp add: mset_heappush)
  have "search_inv m (d, p) {#(0, (d, p))#} {} (\<lambda>_. 0)"
    unfolding search_inv_def by (auto intro: exI[of _ "[]"])
  then show ?thesis
    unfolding djikstra_inv_def using d_basic_init[of p d] ms
    by (auto simp: djikstra_init_def djikstra_view_def)
qed

lemma djikstra_step_final:
  assumes inv: "djikstra_inv m s0 st" and card0: "fst s0 \<in> cardinals"
    and step: "djikstra_step m st = Finished (Inr (c, S))"
  shows "best_cost m s0 c"
  using step
proof (cases rule: djikstra_step_cases)
  case (End current open1 cur)
  have basic: "d_basic_inv (snd s0) st" using inv by (simp add: djikstra_inv_def)
  obtain G where G: "search_inv m s0 (image_mset djikstra_view (mset (d_open st)))
      (closed_set (d_closed st)) G"
    using inv by (auto simp: djikstra_inv_def)
  note pv = d_pop_view[OF basic End(1)]
  have c: "c = d_cost current" using End(4) by simp
  let ?s = "(d_direction current, d_point current)"
  have view: "djikstra_view current = (d_cost current, ?s)" by (simp add: djikstra_view_def)
  have "\<exists>mvs. walk m s0 mvs = Some ?s \<and> path_cost mvs = d_cost current"
    using G pv(3) unfolding search_inv_def view by fastforce
  then have sound: "\<exists>mvs t. walk m s0 mvs = Some t \<and> snd t = end_cell m \<and> path_cost mvs = c"
    using End(3) c by auto
  have opt: "\<forall>mvs t. walk m s0 mvs = Some t \<and> snd t = end_cell m \<longrightarrow> c \<le> path_cost mvs"
  proof (intro allI impI)
    fix mvs t assume w: "walk m s0 mvs = Some t \<and> snd t = end_cell m"
    then have tc: "t \<notin> closed_set (d_closed st)"
      using G unfolding search_inv_def by blast
    have mn: "\<forall>n \<in># image_mset djikstra_view (mset (d_open st)).
        d_cost current + (\<lambda>_. 0) (snd ?s) \<le> fst n + (\<lambda>_. 0) (snd (snd n))"
      using pv(1) by simp
    show "c \<le> path_cost mvs"
      unfolding c
      by (rule popped_optimal[OF G consistent_zero card0 mn _ tc]) (use w in simp_all)
  qed
  show ?thesis unfolding best_cost_def using sound opt by simp
next
  case (Missing current open1)
  have "d_basic_inv (snd s0) st" using inv by (simp add: djikstra_inv_def)
  then show ?thesis using d_pop_basic(5)[OF _ Missing(1)] Missing(2) by auto
qed simp_all

lemma find_djikstra_best:
  assumes "d \<in> cardinals" and "find_djikstra fuel m p d = Some (Inr (c, S))"
  shows "best_cost m (d, p) c"
proof -
  have fin: "while_loop (djikstra_step m) fuel (djikstra_init p d) = Finished (Inr (c, S))"
    using assms(2) by (simp add: find_djikstra_def split: outcome.splits)
  have "\<exists>s. djikstra_inv m (d, p) s \<and> djikstra_step m s = Finished (Inr (c, S))"
    by (rule while_loop_Finished[where P = "djikstra_inv m (d, p)", OF fin djikstra_inv_init])
       (rule djikstra_inv_step, simp_all add: assms)
  then show ?thesis using djikstra_step_final assms(1) by fastforce
qed

lemma best_cost_unique: "best_cost m s0 a \<Longrightarrow> best_cost m s0 b \<Longrightarrow> a = b"
  unfolding best_cost_def by (meson order_antisym)

section \<open>Errors, returned cells and the agreement of the two searches\<close>

lemma cost_of_Inl: "cost_of r = Some (Inl e) \<longleftrightarrow> r = Some (Inl e)"
  by (cases r) (auto simp: cost_of_def map_sum_def split: sum.splits)

lemma cost_of_Inr: "cost_of r = Some (Inr c) \<longleftrightarrow> (\<exists>t. r = Some (Inr (c, t)))"
  by (cases r) (auto simp: cost_of_def map_sum_def split: sum.splits)

lemma while_loop_add:
  "while_loop step (n + k) st =
     (case while_loop step n st of Finished r \<Rightarrow> Finished r | Running st' \<Rightarrow> while_loop step k st')"
  by (induction n arbitrary: st) (auto split: outcome.splits)

lemma while_loop_mono:
  assumes "while_loop step n st = Finished r" and "n \<le> n'"
  shows "while_loop step n' st = Finished r"
proof -
  obtain k where "n' = n + k" using assms(2) by (auto simp: le_iff_add)
  then show ?thesis using assms(1) by (simp add: while_loop_add)
qed


lemma while_loop_Finished_iff:
  "while_loop step n st = Finished r \<longleftrightarrow>
     (\<exists>k<n. \<exists>s. while_loop step k st = Running s \<and> step s = Finished r)"
proof (induction n arbitrary: st)
  case 0
  then show ?case by simp
next
  case (Suc n)
  show ?case
  proof (cases "step st")
    case (Finished r')
    show ?thesis
    proof
      assume "while_loop step (Suc n) st = Finished r"
      then have "r' = r" using Finished by simp
      then have "while_loop step 0 st = Running st \<and> step st = Finished r"
        using Finished by simp
      then show "\<exists>k<Suc n. \<exists>s. while_loop step k st = Running s \<and> step s = Finished r"
        by blast
    next
      assume "\<exists>k<Suc n. \<exists>s. while_loop step k st = Running s \<and> step s = Finished r"
      then obtain k s where k: "while_loop step k st = Running s" "step s = Finished r"
        by blast
      have "k = 0" using k(1) Finished by (cases k) simp_all
      then show "while_loop step (Suc n) st = Finished r"
        using k Finished by simp
    qed
  next
    case (Running st')
    have "while_loop step (Suc n) st = Finished r \<longleftrightarrow> while_loop step n st' = Finished r"
      using Running by simp
    also have "\<dots> \<longleftrightarrow> (\<exists>k<n. \<exists>s. while_loop step k st' = Running s \<and> step s = Finished r)"
      by (rule Suc.IH)
    also have "\<dots> \<longleftrightarrow> (\<exists>k<Suc n. \<exists>s. while_loop step k st = Running s \<and> step s = Finished r)"
    proof
      assume "\<exists>k<n. \<exists>s. while_loop step k st' = Running s \<and> step s = Finished r"
      then obtain k s where "k < n" "while_loop step k st' = Running s" "step s = Finished r"
        by blast
      then have "Suc k < Suc n \<and> while_loop step (Suc k) st = Running s \<and> step s = Finished r"
        using Running by simp
      then show "\<exists>k<Suc n. \<exists>s. while_loop step k st = Running s \<and> step s = Finished r"
        by blast
    next
      assume "\<exists>k<Suc n. \<exists>s. while_loop step k st = Running s \<and> step s = Finished r"
      then obtain k s where k: "k < Suc n" "while_loop step k st = Running s"
          "step s = Finished r"
        by blast
      have "k \<noteq> 0" using k(2,3) Running by (cases k) auto
      then obtain k' where k': "k = Suc k'" by (cases k) simp_all
      then have "k' < n \<and> while_loop step k' st' = Running s \<and> step s = Finished r"
        using k Running by simp
      then show "\<exists>k<n. \<exists>s. while_loop step k st' = Running s \<and> step s = Finished r"
        by blast
    qed
    finally show ?thesis .
  qed
qed

lemma astar_step_error:
  "astar_step m st = Finished (Inl e) \<longleftrightarrow> e = RouteNotFound \<and> a_open st = []"
  by (auto simp: astar_step_def Let_def heappop_None split: option.splits if_splits)

lemma djikstra_step_error:
  assumes "d_basic_inv r st"
  shows "djikstra_step m st = Finished (Inl e) \<longleftrightarrow> e = RouteNotFound \<and> d_open st = []"
proof
  assume "djikstra_step m st = Finished (Inl e)"
  then show "e = RouteNotFound \<and> d_open st = []"
    using d_basic_Finished[OF assms] by blast
next
  assume "e = RouteNotFound \<and> d_open st = []"
  then show "djikstra_step m st = Finished (Inl e)"
    by (simp add: djikstra_step_def)
qed

lemma d_basic_reach:
  "while_loop (djikstra_step m) k (djikstra_init p d) = Running st \<Longrightarrow> d_basic_inv p st"
  by (rule while_loop_Running[where P = "d_basic_inv p", OF _ d_basic_init])
     (use d_basic_step in blast)+

lemma find_astar_Some:
  "find_astar fuel m p d = Some r \<longleftrightarrow>
     while_loop (astar_step m) fuel (astar_init m p d) = Finished r"
  by (simp add: find_astar_def split: outcome.splits)

lemma find_djikstra_Some:
  "find_djikstra fuel m p d = Some r \<longleftrightarrow>
     while_loop (djikstra_step m) fuel (djikstra_init p d) = Finished r"
  by (simp add: find_djikstra_def split: outcome.splits)

text \<open>
  C5. A search raises exactly when a pass of its loop finds the queue empty, no earlier
  pass having returned, and the error is then \<open>RouteNotFound\<close>; so a return value
  (\<open>Inr\<close>) never stands for a missing route. With \<open>fuel\<close> passes allowed, the search
  has raised \<open>e\<close> iff \<open>e\<close> is \<open>RouteNotFound\<close> and after some \<open>k < fuel\<close> passes
  the loop is still running with an empty queue.
\<close>

theorem error_iff_queue_exhausted:
  "(find_astar fuel m p d = Some (Inl e) \<longleftrightarrow>
      e = RouteNotFound
      \<and> (\<exists>k<fuel. \<exists>st. while_loop (astar_step m) k (astar_init m p d) = Running st
            \<and> a_open st = []))
   \<and> (find_djikstra fuel m p d = Some (Inl e) \<longleftrightarrow>
      e = RouteNotFound
      \<and> (\<exists>k<fuel. \<exists>st. while_loop (djikstra_step m) k (djikstra_init p d) = Running st
            \<and> d_open st = []))"
proof
  show "find_astar fuel m p d = Some (Inl e) \<longleftrightarrow>
      e = RouteNotFound
      \<and> (\<exists>k<fuel. \<exists>st. while_loop (astar_step m) k (astar_init m p d) = Running st
            \<and> a_open st = [])"
    unfolding find_astar_Some while_loop_Finished_iff astar_step_error by blast
next
  have "find_djikstra fuel m p d = Some (Inl e) \<longleftrightarrow>
      (\<exists>k<fuel. \<exists>st. while_loop (djikstra_step m) k (djikstra_init p d) = Running st
          \<and> djikstra_step m st = Finished (Inl e))"
    unfolding find_djikstra_Some while_loop_Finished_iff ..
  also have "\<dots> \<longleftrightarrow>
      (\<exists>k<fuel. \<exists>st. while_loop (djikstra_step m) k (djikstra_init p d) = Running st
          \<and> e = RouteNotFound \<and> d_open st = [])"
    using djikstra_step_error[OF d_basic_reach] by blast
  finally show "find_djikstra fuel m p d = Some (Inl e) \<longleftrightarrow>
      e = RouteNotFound
      \<and> (\<exists>k<fuel. \<exists>st. while_loop (djikstra_step m) k (djikstra_init p d) = Running st
            \<and> d_open st = [])"
    by blast
qed

theorem error_iff_queue_exhausted_witness:
  "find_astar 2 walled_in (Point 0 0) (Direction 1 0) = Some (Inl RouteNotFound)
   \<and> (\<exists>k<2. \<exists>st. while_loop (astar_step walled_in) k
          (astar_init walled_in (Point 0 0) (Direction 1 0)) = Running st \<and> a_open st = [])
   \<and> find_djikstra 2 walled_in (Point 0 0) (Direction 1 0) = Some (Inl RouteNotFound)
   \<and> (\<exists>k<2. \<exists>st. while_loop (djikstra_step walled_in) k
          (djikstra_init (Point 0 0) (Direction 1 0)) = Running st \<and> d_open st = [])"
proof -
  have "cost_of (find_astar 2 walled_in (Point 0 0) (Direction 1 0)) = Some (Inl RouteNotFound)"
    by code_simp
  then have a: "find_astar 2 walled_in (Point 0 0) (Direction 1 0) = Some (Inl RouteNotFound)"
    by (simp add: cost_of_Inl)
  have b: "find_djikstra 2 walled_in (Point 0 0) (Direction 1 0) = Some (Inl RouteNotFound)"
    by code_simp
  show ?thesis
    using a b error_iff_queue_exhausted[of 2 walled_in "Point 0 0" "Direction 1 0" RouteNotFound]
    by simp
qed

text \<open>
  C6. When \<open>find_djikstra\<close> returns, the returned set of cells contains the start cell
  it was called with (\<open>reindeer\<close>, which \<open>part2\<close> takes from the maze) and the end cell
  of the maze.
\<close>

theorem djikstra_cells_hold_start_and_end:
  assumes "find_djikstra fuel m reindeer d = Some (Inr (c, cells))"
  shows "reindeer \<in> cells \<and> end_cell m \<in> cells"
proof -
  have "\<exists>k<fuel. \<exists>st. while_loop (djikstra_step m) k (djikstra_init reindeer d) = Running st
      \<and> djikstra_step m st = Finished (Inr (c, cells))"
    using assms unfolding find_djikstra_Some while_loop_Finished_iff .
  then obtain k st where st: "while_loop (djikstra_step m) k (djikstra_init reindeer d) = Running st"
      "djikstra_step m st = Finished (Inr (c, cells))"
    by blast
  show ?thesis
    using d_basic_Finished[OF d_basic_reach[OF st(1)] st(2)] by simp
qed

theorem djikstra_cells_hold_start_and_end_witness:
  "find_djikstra 3 corridor3 (Point 0 1) (Direction 1 0)
     = Some (Inr (2, {Point 0 1, Point 1 1, Point 2 1}))
   \<and> Point 0 1 \<in> {Point 0 1, Point 1 1, Point 2 1}
   \<and> end_cell corridor3 \<in> {Point 0 1, Point 1 1, Point 2 1}"
proof -
  have r: "find_djikstra 3 corridor3 (Point 0 1) (Direction 1 0)
      = Some (Inr (2, {Point 0 1, Point 1 1, Point 2 1}))"
    by code_simp
  show ?thesis
    using r djikstra_cells_hold_start_and_end[OF r] by simp
qed

text \<open>
  C3. On a maze, a start cell and one of the four headings on which both searches return,
  the cost that \<open>find_astar\<close> returns is the cost that \<open>find_djikstra\<close> returns: each
  is the least cost of a walk from the start to the end cell.
\<close>

theorem searches_agree:
  assumes "d \<in> cardinals"
    and "find_astar fuel1 m p d = Some (Inr (c1, t))"
    and "find_djikstra fuel2 m p d = Some (Inr (c2, S))"
  shows "c1 = c2"
  using best_cost_unique[OF find_astar_best[OF assms(1,2)] find_djikstra_best[OF assms(1,3)]] .

theorem searches_agree_witness:
  "Direction 1 0 \<in> cardinals
   \<and> (\<exists>t. find_astar 3 corridor3 (Point 0 1) (Direction 1 0) = Some (Inr (2, t)))
   \<and> find_djikstra 4 corridor3 (Point 0 1) (Direction 1 0)
       = Some (Inr (2, {Point 0 1, Point 1 1, Point 2 1}))"
proof -
  have c: "Direction 1 0 \<in> cardinals"
    by (simp add: cardinals_def)
  have "cost_of (find_astar 3 corridor3 (Point 0 1) (Direction 1 0)) = Some (Inr 2)"
    by code_simp
  then obtain t where a: "find_astar 3 corridor3 (Point 0 1) (Direction 1 0) = Some (Inr (2, t))"
    by (auto simp: cost_of_Inr)
  have b: "find_djikstra 4 corridor3 (Point 0 1) (Direction 1 0)
      = Some (Inr (2, {Point 0 1, Point 1 1, Point 2 1}))"
    by code_simp
  show ?thesis using a b c searches_agree[OF c a b] by blast
qed

section \<open>Growth of trails, and determinism\<close>

lemma visit_mono:
  "visit current (tr, opn) node = Inr (tr', opn') \<Longrightarrow> trails_le tr tr'"
  by (auto simp: visit_def trails_le_def split: option.splits)

lemma visit_all_mono:
  "visit_all current (tr, opn) nodes = Inr (tr', opn') \<Longrightarrow> trails_le tr tr'"
proof (induction nodes arbitrary: tr opn)
  case Nil
  then show ?case by (simp add: trails_le_refl)
next
  case (Cons node nodes)
  from Cons.prems obtain tr1 opn1 where v: "visit current (tr, opn) node = Inr (tr1, opn1)"
      and rest: "visit_all current (tr1, opn1) nodes = Inr (tr', opn')"
    by (auto split: sum.splits)
  show ?case
    using trails_le_trans[OF visit_mono[OF v] Cons.IH[OF rest]] .
qed

lemma djikstra_step_mono:
  assumes "djikstra_step m st = Running st'"
  shows "trails_le (d_trails st) (d_trails st')"
proof (cases "d_open st = []")
  case True
  then show ?thesis using assms by (simp add: djikstra_step_def)
next
  case ne: False
  show ?thesis
  proof (cases "heappop djikstra_lt (d_open st)")
    case None
    then show ?thesis using assms ne by (simp add: djikstra_step_def trails_le_refl)
  next
    case (Some a)
    obtain current open1 where a: "a = (current, open1)" by (cases a)
    show ?thesis
    proof (cases "\<not> closed_get (d_closed st) (d_direction current, d_point current)
        \<and> \<not> is_wall m (d_point current)")
      case False
      then have "d_trails st' = d_trails st"
        using assms ne Some a
        by (auto simp: djikstra_step_def Let_def split: if_splits option.splits)
      then show ?thesis by (simp add: trails_le_refl)
    next
      case True
      then obtain tr1 opn2 where
        v: "visit_all current (d_trails st, open1) (successors current) = Inr (tr1, opn2)"
        and "d_trails st' = tr1"
        using assms ne Some a
        by (auto simp: djikstra_step_def Let_def split: if_splits option.splits sum.splits)
      then show ?thesis using visit_all_mono[OF v] by simp
    qed
  qed
qed

lemma while_loop_trails_mono:
  "while_loop (djikstra_step m) n st = Running st' \<Longrightarrow> trails_le (d_trails st) (d_trails st')"
proof (induction n arbitrary: st)
  case 0
  then show ?case by (simp add: trails_le_refl)
next
  case (Suc n)
  then obtain s1 where s1: "djikstra_step m st = Running s1"
      "while_loop (djikstra_step m) n s1 = Running st'"
    by (auto split: outcome.splits)
  show ?case
    using trails_le_trans[OF djikstra_step_mono[OF s1(1)] Suc.IH[OF s1(2)]] .
qed

lemma find_djikstra_None:
  "find_djikstra fuel m p d = None \<longleftrightarrow>
     (\<exists>st. while_loop (djikstra_step m) fuel (djikstra_init p d) = Running st)"
  by (simp add: find_djikstra_def split: outcome.splits)

text \<open>
  C7. The dictionary \<open>trails\<close> only grows: an update of the \<open>for\<close> loop, and so any
  number of passes of the \<open>while\<close> loop from any state, keeps every key that has an
  entry and leaves it a superset of what it was.
\<close>

theorem trails_only_grow:
  "(visit current (tr, opn) node = Inr (tr', opn') \<longrightarrow>
      (\<forall>k S. tr k = Some S \<longrightarrow> (\<exists>S'. tr' k = Some S' \<and> S \<subseteq> S')))
   \<and> (while_loop (djikstra_step m) n st = Running st' \<longrightarrow>
      (\<forall>k S. d_trails st k = Some S \<longrightarrow> (\<exists>S'. d_trails st' k = Some S' \<and> S \<subseteq> S')))"
  using visit_mono[of current tr opn node tr' opn'] while_loop_trails_mono[of m n st st']
  unfolding trails_le_def by blast

theorem trails_only_grow_witness:
  "\<exists>st'. while_loop (djikstra_step corridor3) 2 (djikstra_init (Point 0 1) (Direction 1 0))
            = Running st'
     \<and> d_trails (djikstra_init (Point 0 1) (Direction 1 0)) (Point 0 1, 0) = Some {Point 0 1}
     \<and> (\<exists>S'. d_trails st' (Point 0 1, 0) = Some S' \<and> {Point 0 1} \<subseteq> S')
     \<and> (\<exists>tr' opn'.
          visit \<lparr>d_cost = 0, d_direction = Direction 1 0, d_point = Point 0 1\<rparr>
            ([(Point 0 1, 0) \<mapsto> {Point 0 1}], [])
            \<lparr>d_cost = 1, d_direction = Direction 1 0, d_point = Point 1 1\<rparr> = Inr (tr', opn')
          \<and> (\<exists>S'. tr' (Point 0 1, 0) = Some S' \<and> {Point 0 1} \<subseteq> S'))"
proof -
  let ?n0 = "\<lparr>d_cost = 0, d_direction = Direction 1 0, d_point = Point 0 1\<rparr>"
  let ?n1 = "\<lparr>d_cost = 1, d_direction = Direction 1 0, d_point = Point 1 1\<rparr>"
  let ?tr = "[(Point 0 1, 0::int) \<mapsto> {Point 0 1}]"
  obtain tr' opn' where v: "visit ?n0 (?tr, []) ?n1 = Inr (tr', opn')"
    by (simp add: visit_def)
  have tr0: "?tr (Point 0 1, 0) = Some {Point 0 1}"
    by simp
  have "\<forall>k S. ?tr k = Some S \<longrightarrow> (\<exists>S'. tr' k = Some S' \<and> S \<subseteq> S')"
    using trails_only_grow[of ?n0 ?tr "[]" ?n1 tr' opn'] v by blast
  then have "\<exists>S'. tr' (Point 0 1, 0) = Some S' \<and> {Point 0 1} \<subseteq> S'"
    using tr0 by blast
  then have vis: "\<exists>tr' opn'. visit ?n0 (?tr, []) ?n1 = Inr (tr', opn')
      \<and> (\<exists>S'. tr' (Point 0 1, 0) = Some S' \<and> {Point 0 1} \<subseteq> S')"
    using v by blast
  have "find_djikstra 2 corridor3 (Point 0 1) (Direction 1 0) = None"
    by code_simp
  then obtain st' where run: "while_loop (djikstra_step corridor3) 2
      (djikstra_init (Point 0 1) (Direction 1 0)) = Running st'"
    by (auto simp: find_djikstra_None)
  have init: "d_trails (djikstra_init (Point 0 1) (Direction 1 0)) (Point 0 1, 0)
      = Some {Point 0 1}"
    by (simp add: djikstra_init_def)
  have "\<exists>S'. d_trails st' (Point 0 1, 0) = Some S' \<and> {Point 0 1} \<subseteq> S'"
    using trails_only_grow[of _ _ _ _ _ _ corridor3 2
        "djikstra_init (Point 0 1) (Direction 1 0)" st'] run init
    by blast
  then show ?thesis using run init vis by blast
qed



section \<open>The order of the tests in a pass\<close>

text \<open>
  C10. In both loops the test for the end cell comes first: a pass that pops a node at the
  end cell returns, whatever \<open>closed\<close> says about the node's state and whether or not
  the end cell is a wall. In the maze \<open>wall_at_end\<close>, whose end cell is a wall next to the
  start, both searches return the cost 1.
\<close>

theorem end_test_comes_first:
  "(heappop astar_lt (a_open st) = Some (current, open1) \<and> a_point current = end_cell m \<longrightarrow>
      astar_step m st = Finished (Inr (a_g current, a_trail current)))
   \<and> (heappop djikstra_lt (d_open dst) = Some (dcurrent, dopen1)
        \<and> d_point dcurrent = end_cell m
        \<and> d_trails dst (d_point dcurrent, d_cost dcurrent) = Some cells \<longrightarrow>
      djikstra_step m dst = Finished (Inr (d_cost dcurrent, cells)))
   \<and> is_wall wall_at_end (end_cell wall_at_end)
   \<and> cost_of (find_astar 2 wall_at_end (Point 0 0) (Direction 1 0)) = Some (Inr 1)
   \<and> find_djikstra 2 wall_at_end (Point 0 0) (Direction 1 0)
       = Some (Inr (1, {Point 0 0, Point 1 0}))"
proof -
  have a: "heappop astar_lt (a_open st) = Some (current, open1) \<and> a_point current = end_cell m
      \<longrightarrow> astar_step m st = Finished (Inr (a_g current, a_trail current))"
    by (auto simp: astar_step_def heappop_def)
  have b: "heappop djikstra_lt (d_open dst) = Some (dcurrent, dopen1)
        \<and> d_point dcurrent = end_cell m
        \<and> d_trails dst (d_point dcurrent, d_cost dcurrent) = Some cells \<longrightarrow>
      djikstra_step m dst = Finished (Inr (d_cost dcurrent, cells))"
    by (auto simp: djikstra_step_def heappop_def)
  have c: "is_wall wall_at_end (end_cell wall_at_end)"
    by (simp add: is_wall_def wall_at_end_def)
  have d: "cost_of (find_astar 2 wall_at_end (Point 0 0) (Direction 1 0)) = Some (Inr 1)"
    by code_simp
  have e: "find_djikstra 2 wall_at_end (Point 0 0) (Direction 1 0)
       = Some (Inr (1, {Point 0 0, Point 1 0}))"
    by code_simp
  show ?thesis using a b c d e by blast
qed

theorem end_test_comes_first_witness:
  "closed_get [(Direction 1 0, Point 1 0) \<mapsto> True] (Direction 1 0, Point 1 0)
   \<and> is_wall wall_at_end (Point 1 0)
   \<and> astar_step wall_at_end
        \<lparr>a_open = [\<lparr>a_direction = Direction 1 0, a_point = Point 1 0, a_g = 7, a_h = 0,
                     a_trail = [Point 1 0 \<mapsto> 1]\<rparr>],
         a_closed = [(Direction 1 0, Point 1 0) \<mapsto> True]\<rparr>
       = Finished (Inr (7, [Point 1 0 \<mapsto> 1]))
   \<and> djikstra_step wall_at_end
        \<lparr>d_open = [\<lparr>d_cost = 7, d_direction = Direction 1 0, d_point = Point 1 0\<rparr>],
         d_closed = [(Direction 1 0, Point 1 0) \<mapsto> True],
         d_trails = [(Point 1 0, 7) \<mapsto> {Point 1 0}]\<rparr>
       = Finished (Inr (7, {Point 1 0}))"
proof -
  let ?n = "\<lparr>a_direction = Direction 1 0, a_point = Point 1 0, a_g = 7, a_h = 0,
      a_trail = [Point 1 0 \<mapsto> 1]\<rparr>"
  let ?st = "\<lparr>a_open = [?n], a_closed = [(Direction 1 0, Point 1 0) \<mapsto> True]\<rparr>"
  let ?dn = "\<lparr>d_cost = 7, d_direction = Direction 1 0, d_point = Point 1 0\<rparr>"
  let ?dst = "\<lparr>d_open = [?dn], d_closed = [(Direction 1 0, Point 1 0) \<mapsto> True],
      d_trails = [(Point 1 0, 7) \<mapsto> {Point 1 0}]\<rparr>"
  have cl: "closed_get [(Direction 1 0, Point 1 0) \<mapsto> True] (Direction 1 0, Point 1 0)"
    by (simp add: closed_get_def)
  have w: "is_wall wall_at_end (Point 1 0)"
    by (simp add: is_wall_def wall_at_end_def)
  have pa: "heappop astar_lt (a_open ?st) = Some (?n, []) \<and> a_point ?n = end_cell wall_at_end"
    by (simp add: heappop_def wall_at_end_def)
  have pd: "heappop djikstra_lt (d_open ?dst) = Some (?dn, [])
      \<and> d_point ?dn = end_cell wall_at_end
      \<and> d_trails ?dst (d_point ?dn, d_cost ?dn) = Some {Point 1 0}"
    by (simp add: heappop_def wall_at_end_def)
  have ra: "astar_step wall_at_end ?st = Finished (Inr (a_g ?n, a_trail ?n))"
    using end_test_comes_first[of ?st ?n "[]" wall_at_end ?dst ?dn "[]" "{Point 1 0}"] pa
    by blast
  have rd: "djikstra_step wall_at_end ?dst = Finished (Inr (d_cost ?dn, {Point 1 0}))"
    using end_test_comes_first[of ?st ?n "[]" wall_at_end ?dst ?dn "[]" "{Point 1 0}"] pd
    by blast
  have ra': "astar_step wall_at_end ?st = Finished (Inr (7, [Point 1 0 \<mapsto> 1]))"
    using ra by simp
  have rd': "djikstra_step wall_at_end ?dst = Finished (Inr (7, {Point 1 0}))"
    using rd by simp
  show ?thesis
    using cl w ra' rd' by blast
qed

text \<open>
  C2, as claimed: the forward successor would be put on the queue only if the cell ahead
  is not a wall. In the maze \<open>wall_ahead\<close> the cell ahead of the start is a wall, and the
  first pass of either loop puts the forward successor, at that cell with cost 1, on the
  queue.
\<close>

theorem forward_into_wall_is_queued:
  "is_wall wall_ahead (add (Point 0 0) (Direction 1 0))
   \<and> astar_frontier (astar_step wall_ahead (astar_init wall_ahead (Point 0 0) (Direction 1 0)))
       = [(add (Point 0 0) (Direction 1 0), 1), (Point 0 0, 1000), (Point 0 0, 1000)]
   \<and> djikstra_frontier (djikstra_step wall_ahead (djikstra_init (Point 0 0) (Direction 1 0)))
       = [(add (Point 0 0) (Direction 1 0), 1), (Point 0 0, 1000), (Point 0 0, 1000)]"
  by code_simp

text \<open>
  C2, amended. A pass that pops a node which is not at the end cell and whose state is not
  closed closes the state and tests the node's own cell, not the cell ahead: if that cell
  is a wall, nothing is put on the queue; otherwise the forward, rotate-left and
  rotate-right successors are put on the queue, in this order. The forward successor is
  one cell ahead, costs 1 more, and its trail is the node's trail extended with the new
  cell; a rotated successor stays on the cell, costs 1000 more and keeps the trail. In
  \<open>find_djikstra\<close> the same three nodes are visited, each entering its cell into
  \<open>trails\<close> under its (cell, cost) key together with the current node's entry.
\<close>

theorem expansion_tests_own_cell:
  "(heappop astar_lt (a_open st) = Some (current, open1)
      \<and> a_point current \<noteq> end_cell m
      \<and> \<not> closed_get (a_closed st) (a_direction current, a_point current) \<longrightarrow>
      astar_step m st =
        Running \<lparr>a_open =
                   (if is_wall m (a_point current) then open1
                    else heappush astar_lt (heappush astar_lt (heappush astar_lt open1
                           (astar_forward m current)) (astar_rotate RotateLeft current))
                           (astar_rotate RotateRight current)),
                 a_closed = (a_closed st)((a_direction current, a_point current) \<mapsto> True)\<rparr>
      \<and> a_point (astar_forward m current) = add (a_point current) (a_direction current)
      \<and> a_g (astar_forward m current) = a_g current + 1
      \<and> a_trail (astar_forward m current)
          = (a_trail current)(add (a_point current) (a_direction current) \<mapsto> 1)
      \<and> a_point (astar_rotate r current) = a_point current
      \<and> a_direction (astar_rotate r current) = mul (a_direction current) r
      \<and> a_g (astar_rotate r current) = a_g current + 1000
      \<and> a_trail (astar_rotate r current) = a_trail current)
   \<and> (heappop djikstra_lt (d_open dst) = Some (dcurrent, dopen1)
      \<and> d_point dcurrent \<noteq> end_cell m
      \<and> \<not> closed_get (d_closed dst) (d_direction dcurrent, d_point dcurrent)
      \<and> d_trails dst (d_point dcurrent, d_cost dcurrent) = Some cur \<longrightarrow>
      djikstra_step m dst =
        Running \<lparr>d_open =
                   (if is_wall m (d_point dcurrent) then dopen1
                    else expand_open dopen1 dcurrent),
                 d_closed = (d_closed dst)((d_direction dcurrent, d_point dcurrent) \<mapsto> True),
                 d_trails =
                   (if is_wall m (d_point dcurrent) then d_trails dst
                    else expand_trails (d_trails dst) cur dcurrent)\<rparr>
      \<and> d_point (d_forward dcurrent) = add (d_point dcurrent) (d_direction dcurrent)
      \<and> d_cost (d_forward dcurrent) = d_cost dcurrent + 1
      \<and> d_point (d_rotate r dcurrent) = d_point dcurrent
      \<and> d_direction (d_rotate r dcurrent) = mul (d_direction dcurrent) r
      \<and> d_cost (d_rotate r dcurrent) = d_cost dcurrent + 1000)"
proof (intro conjI impI)
  assume h: "heappop astar_lt (a_open st) = Some (current, open1)
      \<and> a_point current \<noteq> end_cell m
      \<and> \<not> closed_get (a_closed st) (a_direction current, a_point current)"
  then have "a_open st \<noteq> []" by (auto simp: heappop_def)
  then show "astar_step m st =
        Running \<lparr>a_open =
                   (if is_wall m (a_point current) then open1
                    else heappush astar_lt (heappush astar_lt (heappush astar_lt open1
                           (astar_forward m current)) (astar_rotate RotateLeft current))
                           (astar_rotate RotateRight current)),
                 a_closed = (a_closed st)((a_direction current, a_point current) \<mapsto> True)\<rparr>"
    using h by (simp add: astar_step_def Let_def astar_forward_def astar_rotate_def)
next
  assume h: "heappop djikstra_lt (d_open dst) = Some (dcurrent, dopen1)
      \<and> d_point dcurrent \<noteq> end_cell m
      \<and> \<not> closed_get (d_closed dst) (d_direction dcurrent, d_point dcurrent)
      \<and> d_trails dst (d_point dcurrent, d_cost dcurrent) = Some cur"
  then have ne: "d_open dst \<noteq> []" by (auto simp: heappop_def)
  have cur: "d_trails dst (d_point dcurrent, d_cost dcurrent) = Some cur" using h by simp
  show "djikstra_step m dst =
        Running \<lparr>d_open =
                   (if is_wall m (d_point dcurrent) then dopen1
                    else expand_open dopen1 dcurrent),
                 d_closed = (d_closed dst)((d_direction dcurrent, d_point dcurrent) \<mapsto> True),
                 d_trails =
                   (if is_wall m (d_point dcurrent) then d_trails dst
                    else expand_trails (d_trails dst) cur dcurrent)\<rparr>"
    using h ne
    by (simp add: djikstra_step_def Let_def
        visit_all_successors[where tr = "d_trails dst", OF cur])
qed (simp_all add: astar_forward_def astar_rotate_def d_forward_def d_rotate_def
       COST_FORWARD_def COST_ROTATE_def)

theorem expansion_tests_own_cell_witness:
  "heappop astar_lt [\<lparr>a_direction = Direction 1 0, a_point = Point 0 0, a_g = 0, a_h = 3,
                        a_trail = [Point 0 0 \<mapsto> 1]\<rparr>]
     = Some (\<lparr>a_direction = Direction 1 0, a_point = Point 0 0, a_g = 0, a_h = 3,
               a_trail = [Point 0 0 \<mapsto> 1]\<rparr>, [])
   \<and> Point 0 0 \<noteq> end_cell wall_ahead
   \<and> \<not> closed_get Map.empty (Direction 1 0, Point 0 0)
   \<and> \<not> is_wall wall_ahead (Point 0 0)
   \<and> is_wall wall_ahead (add (Point 0 0) (Direction 1 0))
   \<and> astar_step wall_ahead
        \<lparr>a_open = [\<lparr>a_direction = Direction 1 0, a_point = Point 0 0, a_g = 0, a_h = 3,
                     a_trail = [Point 0 0 \<mapsto> 1]\<rparr>],
         a_closed = Map.empty\<rparr>
       = Running
           \<lparr>a_open = heappush astar_lt (heappush astar_lt (heappush astar_lt []
               (astar_forward wall_ahead
                  \<lparr>a_direction = Direction 1 0, a_point = Point 0 0, a_g = 0, a_h = 3,
                    a_trail = [Point 0 0 \<mapsto> 1]\<rparr>))
               (astar_rotate RotateLeft
                  \<lparr>a_direction = Direction 1 0, a_point = Point 0 0, a_g = 0, a_h = 3,
                    a_trail = [Point 0 0 \<mapsto> 1]\<rparr>))
               (astar_rotate RotateRight
                  \<lparr>a_direction = Direction 1 0, a_point = Point 0 0, a_g = 0, a_h = 3,
                    a_trail = [Point 0 0 \<mapsto> 1]\<rparr>),
            a_closed = [(Direction 1 0, Point 0 0) \<mapsto> True]\<rparr>
   \<and> djikstra_step wall_ahead
        \<lparr>d_open = [\<lparr>d_cost = 0, d_direction = Direction 1 0, d_point = Point 0 0\<rparr>],
         d_closed = Map.empty,
         d_trails = [(Point 0 0, 0) \<mapsto> {Point 0 0}]\<rparr>
       = Running
           \<lparr>d_open = expand_open []
               \<lparr>d_cost = 0, d_direction = Direction 1 0, d_point = Point 0 0\<rparr>,
            d_closed = [(Direction 1 0, Point 0 0) \<mapsto> True],
            d_trails = expand_trails [(Point 0 0, 0) \<mapsto> {Point 0 0}] {Point 0 0}
               \<lparr>d_cost = 0, d_direction = Direction 1 0, d_point = Point 0 0\<rparr>\<rparr>"
proof -
  let ?n = "\<lparr>a_direction = Direction 1 0, a_point = Point 0 0, a_g = 0, a_h = 3,
      a_trail = [Point 0 0 \<mapsto> 1]\<rparr>"
  let ?st = "\<lparr>a_open = [?n], a_closed = Map.empty\<rparr>"
  let ?dn = "\<lparr>d_cost = 0, d_direction = Direction 1 0, d_point = Point 0 0\<rparr>"
  let ?dst = "\<lparr>d_open = [?dn], d_closed = Map.empty,
      d_trails = [(Point 0 0, 0) \<mapsto> {Point 0 0}]\<rparr>"
  have pa: "heappop astar_lt [?n] = Some (?n, [])"
    by (simp add: heappop_def)
  have pd: "heappop djikstra_lt [?dn] = Some (?dn, [])"
    by (simp add: heappop_def)
  have ne: "Point 0 0 \<noteq> end_cell wall_ahead"
    by (simp add: wall_ahead_def)
  have nc: "\<not> closed_get Map.empty (Direction 1 0, Point 0 0)"
    by (simp add: closed_get_def)
  have nw: "\<not> is_wall wall_ahead (Point 0 0)"
    by (simp add: is_wall_def wall_ahead_def)
  have wa: "is_wall wall_ahead (add (Point 0 0) (Direction 1 0))"
    by (simp add: is_wall_def wall_ahead_def add_def)
  have ha: "heappop astar_lt (a_open ?st) = Some (?n, [])
      \<and> a_point ?n \<noteq> end_cell wall_ahead
      \<and> \<not> closed_get (a_closed ?st) (a_direction ?n, a_point ?n)"
    using pa ne nc by simp
  have hd: "heappop djikstra_lt (d_open ?dst) = Some (?dn, [])
      \<and> d_point ?dn \<noteq> end_cell wall_ahead
      \<and> \<not> closed_get (d_closed ?dst) (d_direction ?dn, d_point ?dn)
      \<and> d_trails ?dst (d_point ?dn, d_cost ?dn) = Some {Point 0 0}"
    using pd ne nc by simp
  note inst = expansion_tests_own_cell[of ?st ?n "[]" wall_ahead _ ?dst ?dn "[]" "{Point 0 0}"]
  have ra: "astar_step wall_ahead ?st =
      Running \<lparr>a_open =
                 (if is_wall wall_ahead (a_point ?n) then []
                  else heappush astar_lt (heappush astar_lt (heappush astar_lt []
                         (astar_forward wall_ahead ?n)) (astar_rotate RotateLeft ?n))
                         (astar_rotate RotateRight ?n)),
               a_closed = (a_closed ?st)((a_direction ?n, a_point ?n) \<mapsto> True)\<rparr>"
    using inst ha by blast
  have rd: "djikstra_step wall_ahead ?dst =
      Running \<lparr>d_open = (if is_wall wall_ahead (d_point ?dn) then [] else expand_open [] ?dn),
               d_closed = (d_closed ?dst)((d_direction ?dn, d_point ?dn) \<mapsto> True),
               d_trails =
                 (if is_wall wall_ahead (d_point ?dn) then d_trails ?dst
                  else expand_trails (d_trails ?dst) {Point 0 0} ?dn)\<rparr>"
    using inst hd by blast
  have ra': "astar_step wall_ahead ?st =
      Running \<lparr>a_open = heappush astar_lt (heappush astar_lt (heappush astar_lt []
                   (astar_forward wall_ahead ?n)) (astar_rotate RotateLeft ?n))
                   (astar_rotate RotateRight ?n),
               a_closed = [(Direction 1 0, Point 0 0) \<mapsto> True]\<rparr>"
    using ra nw by simp
  have rd': "djikstra_step wall_ahead ?dst =
      Running \<lparr>d_open = expand_open [] ?dn,
               d_closed = [(Direction 1 0, Point 0 0) \<mapsto> True],
               d_trails = expand_trails [(Point 0 0, 0) \<mapsto> {Point 0 0}] {Point 0 0} ?dn\<rparr>"
    using rd nw by simp
  show ?thesis
    using pa ne nc nw wa ra' rd' by blast
qed

section \<open>The searches return when the end can be reached\<close>

lemma manhattan_nonneg: "0 \<le> manhattan a b"
  by (simp add: manhattan_def)

lemma manhattan_self [simp]: "manhattan a a = 0"
  by (simp add: manhattan_def)

lemma finite_reach_set: "finite (reach_set p B)"
proof -
  have "reach_set p B \<subseteq> cardinals \<times> (\<lambda>(x, y). Point x y) `
      ({pt_x p - B .. pt_x p + B} \<times> {pt_y p - B .. pt_y p + B})"
  proof
    fix s assume s: "s \<in> reach_set p B"
    obtain e q where eq: "s = (e, q)" by (cases s)
    obtain x y where q: "q = Point x y" by (cases q)
    have "\<bar>x - pt_x p\<bar> + \<bar>y - pt_y p\<bar> \<le> B"
      using s by (simp add: reach_set_def eq q manhattan_def)
    then have "x \<in> {pt_x p - B .. pt_x p + B}" "y \<in> {pt_y p - B .. pt_y p + B}"
      by auto
    then have "q \<in> (\<lambda>(x, y). Point x y) ` ({pt_x p - B .. pt_x p + B} \<times> {pt_y p - B .. pt_y p + B})"
      unfolding q by (intro image_eqI[of _ _ "(x, y)"]) auto
    then show "s \<in> cardinals \<times> (\<lambda>(x, y). Point x y) `
        ({pt_x p - B .. pt_x p + B} \<times> {pt_y p - B .. pt_y p + B})"
      using s by (simp add: reach_set_def eq)
  qed
  moreover have "finite (cardinals \<times> (\<lambda>(x, y). Point x y) `
      ({pt_x p - B .. pt_x p + B} \<times> {pt_y p - B .. pt_y p + B}))"
    by (simp add: cardinals_def)
  ultimately show ?thesis by (rule finite_subset)
qed

lemma card_reach_close:
  assumes "s \<in> reach_set p B" and "s \<notin> C"
  shows "card (reach_set p B - insert s C) < card (reach_set p B - C)"
proof -
  have "reach_set p B - insert s C \<subset> reach_set p B - C"
    using assms by auto
  then show ?thesis
    by (intro psubset_card_mono) (simp_all add: finite_reach_set)
qed

lemma popped_bound:
  assumes inv: "search_inv m s0 opn cl G"
    and cons: "consistent hfun"
    and card0: "fst s0 \<in> cardinals"
    and mn: "\<forall>n \<in># opn. g + hfun (snd s) \<le> fst n + hfun (snd (snd n))"
    and w: "walk m s0 mvs = Some t" and t: "t \<notin> cl"
  shows "g + hfun (snd s) \<le> path_cost mvs + hfun (snd t)"
proof -
  from frontier[OF inv w t] obtain xs ys g' s' where
    s: "mvs = xs @ ys" "walk m s0 xs = Some s'" "walk m s' ys = Some t"
       "(g', s') \<in># opn" "g' \<le> path_cost xs"
    by blast
  have "fst s' \<in> cardinals" using walk_cardinal[OF s(2) card0] .
  then have "hfun (snd s') \<le> path_cost ys + hfun (snd t)"
    using consistent_walk[OF cons s(3)] by simp
  moreover have "g + hfun (snd s) \<le> g' + hfun (snd s')"
    using mn s(4) by force
  ultimately show ?thesis using s(1,5) by simp
qed

lemma open_nonempty:
  assumes inv: "search_inv m s0 opn cl G"
    and w: "walk m s0 mvs = Some t" and t: "snd t = end_cell m"
  shows "opn \<noteq> {#}"
proof -
  have "t \<notin> cl" using inv t unfolding search_inv_def by blast
  from frontier[OF inv w this] show ?thesis by auto
qed

lemma popped_in_reach:
  assumes inv: "search_inv m s0 opn cl G"
    and cons: "consistent hfun"
    and card0: "fst s0 \<in> cardinals"
    and mn: "\<forall>n \<in># opn. g + hfun (snd s) \<le> fst n + hfun (snd (snd n))"
    and n: "(g, s) \<in># opn"
    and w: "walk m s0 mvs = Some t" and t: "snd t = end_cell m"
    and h0: "hfun (end_cell m) = 0" and hpos: "\<And>q. 0 \<le> hfun q"
  shows "s \<in> reach_set (snd s0) (path_cost mvs)"
proof -
  have tc: "t \<notin> cl" using inv t unfolding search_inv_def by blast
  have "g + hfun (snd s) \<le> path_cost mvs + hfun (snd t)"
    by (rule popped_bound[OF inv cons card0 mn w tc])
  then have g: "g \<le> path_cost mvs" using h0 t hpos[of "snd s"] by simp
  obtain ps where ps: "walk m s0 ps = Some s" "path_cost ps = g"
    using inv n unfolding search_inv_def by fastforce
  have "manhattan (snd s) (snd s0) \<le> path_cost ps + manhattan (snd s) (snd s)"
    by (rule consistent_walk[OF consistent_manhattan ps(1) card0])
  then have "manhattan (snd s) (snd s0) \<le> path_cost mvs"
    using g ps(2) by simp
  then show ?thesis
    using walk_cardinal[OF ps(1) card0] by (simp add: reach_set_def)
qed

lemma while_loop_terminates:
  assumes "P st"
    and step: "\<And>s s'. P s \<Longrightarrow> step s = Running s' \<Longrightarrow> P s' \<and> \<Phi> s' < \<Phi> s"
  shows "\<exists>r. while_loop step (Suc (\<Phi> st)) st = Finished r"
  using assms(1)
proof (induction "\<Phi> st" arbitrary: st rule: less_induct)
  case less
  show ?case
  proof (cases "step st")
    case (Finished r)
    then show ?thesis by simp
  next
    case (Running s')
    have s': "P s'" "\<Phi> s' < \<Phi> st" using step[OF less.prems Running] by simp_all
    obtain r where "while_loop step (Suc (\<Phi> s')) s' = Finished r"
      using less.hyps[OF s'(2) s'(1)] by blast
    then have "while_loop step (\<Phi> st) s' = Finished r"
      by (rule while_loop_mono) (use s'(2) in simp)
    then show ?thesis using Running by simp
  qed
qed

lemma length_pop:
  "mset xs = add_mset x (mset ys) \<Longrightarrow> length xs = Suc (length ys)"
  by (metis size_add_mset size_mset)

lemma length_heappush [simp]: "length (heappush lt heap item) = Suc (length heap)"
  by (simp add: heappush_def siftdown_def)

lemma astar_progress:
  assumes inv: "astar_inv m s0 st" and card0: "fst s0 \<in> cardinals"
    and w: "walk m s0 mvs = Some t" and t: "snd t = end_cell m"
    and step: "astar_step m st = Running st'"
  shows "astar_measure (snd s0) (path_cost mvs) st' < astar_measure (snd s0) (path_cost mvs) st"
proof -
  have ne: "a_open st \<noteq> []" using step by (auto simp: astar_step_def)
  obtain current open1 where pop: "heappop astar_lt (a_open st) = Some (current, open1)"
    and eq: "astar_step m st =
      (if a_point current = end_cell m then Finished (Inr (a_g current, a_trail current))
       else if closed_get (a_closed st) (a_direction current, a_point current)
         then Running \<lparr>a_open = open1, a_closed = a_closed st\<rparr>
       else if is_wall m (a_point current)
         then Running \<lparr>a_open = open1,
                a_closed = (a_closed st)((a_direction current, a_point current) \<mapsto> True)\<rparr>
       else Running \<lparr>a_open = heappush astar_lt (heappush astar_lt (heappush astar_lt open1
                  (astar_forward m current)) (astar_rotate RotateLeft current))
                  (astar_rotate RotateRight current),
                a_closed = (a_closed st)((a_direction current, a_point current) \<mapsto> True)\<rparr>)"
    using astar_step_cases[OF ne] by metis
  note pf = astar_pop_facts[OF inv pop]
  obtain G where G: "search_inv m s0 (image_mset astar_view (mset (a_open st)))
      (closed_set (a_closed st)) G"
    using inv by (auto simp: astar_inv_def)
  have len: "length (a_open st) = Suc (length open1)" by (rule length_pop[OF pf(2)])
  let ?s = "(a_direction current, a_point current)"
  have view: "astar_view current = (a_g current, ?s)" by (simp add: astar_view_def)
  have notend: "a_point current \<noteq> end_cell m" using step eq by (auto split: if_splits)
  show ?thesis
  proof (cases "closed_get (a_closed st) ?s")
    case True
    then have "st' = \<lparr>a_open = open1, a_closed = a_closed st\<rparr>"
      using step eq notend by simp
    then show ?thesis by (simp add: astar_measure_def len)
  next
    case False
    then have nc: "?s \<notin> closed_set (a_closed st)" by (simp add: closed_set_def)
    have mn: "\<forall>n \<in># image_mset astar_view (mset (a_open st)).
        a_g current + manhattan (end_cell m) (snd ?s) \<le> fst n + manhattan (end_cell m) (snd (snd n))"
      using pf(3) by (simp add: view distance_to_end_manhattan)
    have mem: "(a_g current, ?s) \<in># image_mset astar_view (mset (a_open st))"
      using pf(5) by (simp add: view)
    have "?s \<in> reach_set (snd s0) (path_cost mvs)"
      by (rule popped_in_reach[OF G consistent_manhattan card0 mn mem w t])
         (simp_all add: manhattan_nonneg)
    then have card: "card (reach_set (snd s0) (path_cost mvs) - insert ?s (closed_set (a_closed st)))
        < card (reach_set (snd s0) (path_cost mvs) - closed_set (a_closed st))"
      using nc by (rule card_reach_close)
    have "length (a_open st') \<le> length open1 + 3
        \<and> a_closed st' = (a_closed st)(?s \<mapsto> True)"
      using step eq notend False by (auto split: if_splits)
    then show ?thesis using card len by (simp add: astar_measure_def)
  qed
qed

lemma astar_open_nonempty:
  assumes inv: "astar_inv m s0 st"
    and w: "walk m s0 mvs = Some t" and t: "snd t = end_cell m"
  shows "a_open st \<noteq> []"
proof -
  obtain G where G: "search_inv m s0 (image_mset astar_view (mset (a_open st)))
      (closed_set (a_closed st)) G"
    using inv by (auto simp: astar_inv_def)
  show ?thesis using open_nonempty[OF G w t] by auto
qed

lemma astar_returns:
  assumes card0: "d \<in> cardinals"
    and w: "walk m (d, p) mvs = Some t" and t: "snd t = end_cell m"
  shows "\<exists>fuel c tr. find_astar fuel m p d = Some (Inr (c, tr)) \<and> best_cost m (d, p) c"
proof -
  let ?P = "astar_inv m (d, p)"
  let ?M = "astar_measure p (path_cost mvs)"
  have step: "\<And>s s'. ?P s \<Longrightarrow> astar_step m s = Running s' \<Longrightarrow> ?P s' \<and> ?M s' < ?M s"
    using astar_inv_step[of m "(d, p)"] astar_progress[of m "(d, p)" _ mvs t] card0 w t
    by simp
  obtain r where r: "while_loop (astar_step m) (Suc (?M (astar_init m p d))) (astar_init m p d)
      = Finished r"
    using while_loop_terminates[of ?P "astar_init m p d" "astar_step m" ?M, OF astar_inv_init step]
    by blast
  obtain s where s: "?P s" "astar_step m s = Finished r"
    using while_loop_Finished[where P = ?P, OF r astar_inv_init] step by blast
  have "\<not> (\<exists>e. r = Inl e)"
    using s astar_open_nonempty[OF s(1) w t] by (auto simp: astar_step_error)
  then obtain c tr where c: "r = Inr (c, tr)" by (cases r) auto
  have "best_cost m (d, p) c"
    using astar_step_final[OF s(1)] card0 s(2) c by simp
  then show ?thesis
    using r c unfolding find_astar_Some[symmetric] by blast
qed

lemma djikstra_open_nonempty:
  assumes inv: "djikstra_inv m s0 st"
    and w: "walk m s0 mvs = Some t" and t: "snd t = end_cell m"
  shows "d_open st \<noteq> []"
proof -
  obtain G where G: "search_inv m s0 (image_mset djikstra_view (mset (d_open st)))
      (closed_set (d_closed st)) G"
    using inv by (auto simp: djikstra_inv_def)
  show ?thesis using open_nonempty[OF G w t] by auto
qed

lemma djikstra_progress:
  assumes inv: "djikstra_inv m s0 st" and card0: "fst s0 \<in> cardinals"
    and w: "walk m s0 mvs = Some t" and t: "snd t = end_cell m"
    and step: "djikstra_step m st = Running st'"
  shows "djikstra_measure (snd s0) (path_cost mvs) st'
           < djikstra_measure (snd s0) (path_cost mvs) st"
proof -
  have basic: "d_basic_inv (snd s0) st" using inv by (simp add: djikstra_inv_def)
  obtain G where G: "search_inv m s0 (image_mset djikstra_view (mset (d_open st)))
      (closed_set (d_closed st)) G"
    using inv by (auto simp: djikstra_inv_def)
  have close: "\<And>current open1.
      heappop djikstra_lt (d_open st) = Some (current, open1) \<Longrightarrow>
      \<not> closed_get (d_closed st) (d_direction current, d_point current) \<Longrightarrow>
      card (reach_set (snd s0) (path_cost mvs)
              - insert (d_direction current, d_point current) (closed_set (d_closed st)))
        < card (reach_set (snd s0) (path_cost mvs) - closed_set (d_closed st))"
  proof -
    fix current open1
    assume pop: "heappop djikstra_lt (d_open st) = Some (current, open1)"
      and nc: "\<not> closed_get (d_closed st) (d_direction current, d_point current)"
    let ?s = "(d_direction current, d_point current)"
    note pv = d_pop_view[OF basic pop]
    have mn: "\<forall>n \<in># image_mset djikstra_view (mset (d_open st)).
        d_cost current + (\<lambda>_. 0) (snd ?s) \<le> fst n + (\<lambda>_. 0) (snd (snd n))"
      using pv(1) by simp
    have mem: "(d_cost current, ?s) \<in># image_mset djikstra_view (mset (d_open st))"
      using pv(3) by (simp add: djikstra_view_def)
    have "?s \<in> reach_set (snd s0) (path_cost mvs)"
      by (rule popped_in_reach[OF G consistent_zero card0 mn mem w t]) simp_all
    then show "card (reach_set (snd s0) (path_cost mvs) - insert ?s (closed_set (d_closed st)))
        < card (reach_set (snd s0) (path_cost mvs) - closed_set (d_closed st))"
      using nc by (intro card_reach_close) (simp_all add: closed_set_def)
  qed
  show ?thesis
    using step
  proof (cases rule: djikstra_step_cases)
    case Empty
    then show ?thesis by simp
  next
    case (Missing current open1)
    then show ?thesis using d_pop_basic(5)[OF basic Missing(1)] by auto
  next
    case (End current open1 cur)
    then show ?thesis by simp
  next
    case (Skip current open1 cur)
    have len: "length (d_open st) = Suc (length open1)"
      by (rule length_pop[OF d_pop_basic(2)[OF basic Skip(1)]])
    have "st' = \<lparr>d_open = open1, d_closed = d_closed st, d_trails = d_trails st\<rparr>"
      using Skip(5) by simp
    then show ?thesis by (simp add: djikstra_measure_def len)
  next
    case (Wall current open1 cur)
    have len: "length (d_open st) = Suc (length open1)"
      by (rule length_pop[OF d_pop_basic(2)[OF basic Wall(1)]])
    have "st' = \<lparr>d_open = open1,
        d_closed = (d_closed st)((d_direction current, d_point current) \<mapsto> True),
        d_trails = d_trails st\<rparr>"
      using Wall(6) by simp
    then show ?thesis
      using close[OF Wall(1,4)] by (simp add: djikstra_measure_def len)
  next
    case (Expand current open1 cur)
    have len: "length (d_open st) = Suc (length open1)"
      by (rule length_pop[OF d_pop_basic(2)[OF basic Expand(1)]])
    have "st' = \<lparr>d_open = expand_open open1 current,
        d_closed = (d_closed st)((d_direction current, d_point current) \<mapsto> True),
        d_trails = expand_trails (d_trails st) cur current\<rparr>"
      using Expand(6) by simp
    then show ?thesis
      using close[OF Expand(1,4)] by (simp add: djikstra_measure_def len expand_open_def)
  qed
qed

section \<open>The straight corridor\<close>

lemma shift_zero [simp]: "shift p d 0 = p"
  by (simp add: shift_def)

lemma add_shift: "add (shift p d k) d = shift p d (k + 1)"
  by (simp add: add_def shift_def algebra_simps)

lemma progress_shift: "d \<in> cardinals \<Longrightarrow> progress p d (shift p d k) = k"
  by (auto simp: cardinals_def progress_def shift_def)

lemma progress_add:
  assumes "d \<in> cardinals" and "e \<in> cardinals"
  shows "progress p d (add c e) \<le> progress p d c + 1"
    and "progress p d (add c e) = progress p d c + 1 \<Longrightarrow> e = d"
  using assms by (auto simp: cardinals_def progress_def add_def algebra_simps)

lemma manhattan_shift: "d \<in> cardinals \<Longrightarrow> 0 \<le> k \<Longrightarrow> manhattan (shift p d k) p = k"
  by (auto simp: cardinals_def manhattan_def shift_def)

lemma inj_shift: "d \<in> cardinals \<Longrightarrow> inj (shift p d)"
  by (rule injI) (auto simp: cardinals_def shift_def)

lemma corridor_entry_forward:
  assumes d: "d \<in> cardinals" and e: "e \<in> cardinals"
    and cur: "corridor_entry p d c0 k0 cur"
    and old: "old = {} \<or> corridor_entry p d (add c0 e) (k0 + 1) old"
  shows "corridor_entry p d (add c0 e) (k0 + 1) (old \<union> cur \<union> {add c0 e})"
proof -
  have k0: "0 \<le> k0" and le: "progress p d c0 \<le> k0"
    using cur by (simp_all add: corridor_entry_def)
  have le': "progress p d (add c0 e) \<le> k0 + 1"
    using progress_add(1)[OF d e, of p c0] le by simp
  have on: "k0 + 1 = progress p d (add c0 e) \<Longrightarrow>
      add c0 e = shift p d (k0 + 1) \<and> old \<union> cur \<union> {add c0 e} = shift p d ` {0..k0 + 1}"
  proof -
    assume eq: "k0 + 1 = progress p d (add c0 e)"
    have eq0: "k0 = progress p d c0"
      using eq progress_add(1)[OF d e, of p c0] le by simp
    then have "e = d" using progress_add(2)[OF d e, of p c0] eq by simp
    have c0: "c0 = shift p d k0" and curv: "cur = shift p d ` {0..k0}"
      using cur eq0 by (simp_all add: corridor_entry_def)
    have c': "add c0 e = shift p d (k0 + 1)"
      using c0 \<open>e = d\<close> add_shift[of p d k0] by simp
    have "old = {} \<or> old = shift p d ` {0..k0 + 1}"
      using old eq by (auto simp: corridor_entry_def)
    moreover have "{0..k0 + 1} = insert (k0 + 1) {0..k0}"
      using k0 by auto
    ultimately have "old \<union> cur \<union> {add c0 e} = shift p d ` {0..k0 + 1}"
      using curv c' by auto
    then show ?thesis using c' by simp
  qed
  show ?thesis
    unfolding corridor_entry_def using k0 le' on by simp
qed

lemma corridor_entry_rotate:
  assumes cur: "corridor_entry p d c0 k0 cur"
  shows "corridor_entry p d c0 (k0 + 1000) S"
  using cur by (simp add: corridor_entry_def)

lemma extend_trails_corridor:
  assumes d: "d \<in> cardinals"
    and inv: "corridor_inv p d tr"
    and cur: "corridor_entry p d c0 k0 cur"
    and node: "(\<exists>e \<in> cardinals. d_point node = add c0 e \<and> d_cost node = k0 + 1)
        \<or> (d_point node = c0 \<and> d_cost node = k0 + 1000)"
  shows "corridor_inv p d (extend_trails tr cur node)"
  unfolding corridor_inv_def
proof (intro allI impI)
  fix c k S assume S: "extend_trails tr cur node (c, k) = Some S"
  show "corridor_entry p d c k S"
  proof (cases "(c, k) = d_key node")
    case False
    then have "tr (c, k) = Some S" using S by (simp add: extend_trails_def)
    then show ?thesis using inv by (simp add: corridor_inv_def)
  next
    case True
    let ?old = "case tr (d_key node) of None \<Rightarrow> {} | Some s \<Rightarrow> s"
    have Sv: "S = ?old \<union> cur \<union> {d_point node}"
      using S True by (simp add: extend_trails_def)
    have ck: "c = d_point node" "k = d_cost node"
      using True by (simp_all add: d_key_def)
    have old: "?old = {} \<or> corridor_entry p d (d_point node) (d_cost node) ?old"
      using inv by (auto simp: corridor_inv_def d_key_def split: option.splits)
    from node show ?thesis
    proof
      assume "\<exists>e \<in> cardinals. d_point node = add c0 e \<and> d_cost node = k0 + 1"
      then obtain e where e: "e \<in> cardinals" "d_point node = add c0 e" "d_cost node = k0 + 1"
        by blast
      show ?thesis
        unfolding ck Sv e(2,3)
        by (rule corridor_entry_forward[OF d e(1) cur]) (use old e in simp)
    next
      assume "d_point node = c0 \<and> d_cost node = k0 + 1000"
      then show ?thesis
        unfolding ck using corridor_entry_rotate[OF cur] by simp
    qed
  qed
qed

lemma expand_trails_corridor:
  assumes d: "d \<in> cardinals"
    and inv: "corridor_inv p d tr"
    and cur: "corridor_entry p d (d_point current) (d_cost current) cur"
    and e: "d_direction current \<in> cardinals"
  shows "corridor_inv p d (expand_trails tr cur current)"
  unfolding expand_trails_def
  apply (rule extend_trails_corridor[OF d _ cur])
   apply (rule extend_trails_corridor[OF d _ cur])
    apply (rule extend_trails_corridor[OF d inv cur])
  using e by (auto simp: d_forward_def d_rotate_def COST_FORWARD_def COST_ROTATE_def)

lemma d_open_cardinal:
  assumes inv: "djikstra_inv m s0 st" and card0: "fst s0 \<in> cardinals"
    and n: "n \<in> set (d_open st)"
  shows "d_direction n \<in> cardinals"
proof -
  obtain G where G: "search_inv m s0 (image_mset djikstra_view (mset (d_open st)))
      (closed_set (d_closed st)) G"
    using inv by (auto simp: djikstra_inv_def)
  have "djikstra_view n \<in># image_mset djikstra_view (mset (d_open st))"
    using n by simp
  then obtain mvs where "walk m s0 mvs = Some (snd (djikstra_view n))"
    using G unfolding search_inv_def by blast
  then show ?thesis
    using walk_cardinal[OF _ card0] by (fastforce simp: djikstra_view_def)
qed

lemma corridor_inv_step:
  assumes inv: "djikstra_inv m (d, p) st" and d: "d \<in> cardinals"
    and cor: "corridor_inv p d (d_trails st)"
    and step: "djikstra_step m st = Running st'"
  shows "corridor_inv p d (d_trails st')"
  using step
proof (cases rule: djikstra_step_cases)
  case Empty
  then show ?thesis by simp
next
  case (Missing current open1)
  have "d_basic_inv p st" using inv by (simp add: djikstra_inv_def)
  then show ?thesis using d_pop_basic(5)[OF _ Missing(1)] Missing(2) by auto
next
  case (End current open1 cur)
  then show ?thesis by simp
next
  case (Skip current open1 cur)
  then show ?thesis using cor by auto
next
  case (Wall current open1 cur)
  then show ?thesis using cor by auto
next
  case (Expand current open1 cur)
  have basic: "d_basic_inv p st" using inv by (simp add: djikstra_inv_def)
  have "current \<in> set (d_open st)"
    using d_pop_basic(3)[OF basic Expand(1)] by simp
  then have e: "d_direction current \<in> cardinals"
    using d_open_cardinal[OF inv] d by simp
  have cur: "corridor_entry p d (d_point current) (d_cost current) cur"
    using cor Expand(2) by (simp add: corridor_inv_def d_key_def)
  have "d_trails st' = expand_trails (d_trails st) cur current"
    using Expand(6) by auto
  then show ?thesis
    using expand_trails_corridor[OF d cor cur e] by simp
qed

lemma corridor_inv_init: "d \<in> cardinals \<Longrightarrow> corridor_inv p d (d_trails (djikstra_init p d))"
  by (auto simp: corridor_inv_def corridor_entry_def djikstra_init_def progress_def
      split: if_splits)

lemma straight_walk:
  assumes "\<forall>k. 0 \<le> k \<and> k < int n \<longrightarrow> \<not> is_wall m (shift p d k)"
  shows "walk m (d, p) (replicate n Forward) = Some (d, shift p d (int n))"
  using assms
proof (induction n)
  case 0
  then show ?case by simp
next
  case (Suc n)
  have ih: "walk m (d, p) (replicate n Forward) = Some (d, shift p d (int n))"
    using Suc by simp
  have nw: "\<not> is_wall m (shift p d (int n))" using Suc.prems by simp
  have "replicate (Suc n) Forward = replicate n Forward @ [Forward]"
    by (simp add: replicate_append_same)
  then show ?case
    using ih nw add_shift[of p d "int n"] by (simp add: walk_snoc add.commute)
qed

lemma path_cost_replicate: "path_cost (replicate n Forward) = int n"
  by (induction n) (simp_all add: COST_FORWARD_def)

lemma corridor_best_cost:
  assumes d: "d \<in> cardinals" and N: "0 \<le> N" and e: "end_cell m = shift p d N"
    and free: "\<forall>k. 0 \<le> k \<and> k < N \<longrightarrow> \<not> is_wall m (shift p d k)"
    and best: "best_cost m (d, p) c"
  shows "c = N"
proof -
  have w: "walk m (d, p) (replicate (nat N) Forward) = Some (d, shift p d N)"
    using straight_walk[of "nat N" m p d] free N by simp
  have "c \<le> path_cost (replicate (nat N) Forward)"
    using best w e unfolding best_cost_def by auto
  then have le: "c \<le> N" using N by (simp add: path_cost_replicate)
  obtain mvs t where t: "walk m (d, p) mvs = Some t" "snd t = end_cell m" "path_cost mvs = c"
    using best unfolding best_cost_def by blast
  have "manhattan (end_cell m) (snd (d, p)) \<le> path_cost mvs + manhattan (end_cell m) (snd t)"
    by (rule consistent_walk[OF consistent_manhattan t(1)]) (simp add: d)
  then have "N \<le> c"
    using t(2,3) e manhattan_shift[OF d N, of p] by simp
  then show ?thesis using le by simp
qed

lemma djikstra_returned_entry:
  assumes "djikstra_step m st = Finished (Inr (c, S))"
  shows "d_trails st (end_cell m, c) = Some S"
  using assms
proof (cases rule: djikstra_step_cases)
  case (End current open1 cur)
  then show ?thesis by (simp add: d_key_def)
next
  case (Missing current open1)
  then show ?thesis
    using assms
    by (auto simp: djikstra_step_def d_key_def Let_def heappop_None
        split: if_splits option.splits sum.splits)
qed simp_all

lemma djikstra_corridor_returns:
  assumes d: "d \<in> cardinals" and N: "0 \<le> N" and e: "end_cell m = shift p d N"
    and free: "\<forall>k. 0 \<le> k \<and> k < N \<longrightarrow> \<not> is_wall m (shift p d k)"
  shows "\<exists>fuel. find_djikstra fuel m p d = Some (Inr (N, shift p d ` {0..N}))"
proof -
  let ?mvs = "replicate (nat N) Forward"
  let ?t = "(d, shift p d N)"
  have w: "walk m (d, p) ?mvs = Some ?t"
    using straight_walk[of "nat N" m p d] free N by simp
  have t: "snd ?t = end_cell m" using e by simp
  let ?P = "\<lambda>s. djikstra_inv m (d, p) s \<and> corridor_inv p d (d_trails s)"
  let ?M = "djikstra_measure p (path_cost ?mvs)"
  have init: "?P (djikstra_init p d)"
    using djikstra_inv_init corridor_inv_init[OF d] by simp
  have step: "\<And>s s'. ?P s \<Longrightarrow> djikstra_step m s = Running s' \<Longrightarrow> ?P s' \<and> ?M s' < ?M s"
  proof -
    fix s s' assume P: "?P s" and st: "djikstra_step m s = Running s'"
    have "djikstra_inv m (d, p) s'"
      using djikstra_inv_step[of m "(d, p)" s s'] P st d by simp
    moreover have "corridor_inv p d (d_trails s')"
      using corridor_inv_step[OF _ d _ st] P by simp
    moreover have "?M s' < ?M s"
      using djikstra_progress[of m "(d, p)" s ?mvs ?t s'] P st d w t by simp
    ultimately show "?P s' \<and> ?M s' < ?M s" by simp
  qed
  obtain r where r: "while_loop (djikstra_step m) (Suc (?M (djikstra_init p d)))
      (djikstra_init p d) = Finished r"
    using while_loop_terminates[of ?P "djikstra_init p d" "djikstra_step m" ?M, OF init step]
    by blast
  obtain s where s: "?P s" "djikstra_step m s = Finished r"
    using while_loop_Finished[where P = ?P, OF r init] step by blast
  have inv: "djikstra_inv m (d, p) s" and cor: "corridor_inv p d (d_trails s)"
    using s(1) by simp_all
  have basic: "d_basic_inv p s" using inv by (simp add: djikstra_inv_def)
  have ne: "d_open s \<noteq> []" by (rule djikstra_open_nonempty[OF inv w t])
  obtain c S where cS: "r = Inr (c, S)"
    using d_basic_Finished[OF basic s(2)] ne by blast
  have "best_cost m (d, p) c"
    using djikstra_step_final[OF inv] d s(2) cS by simp
  then have c: "c = N" by (rule corridor_best_cost[OF d N e free])
  have "d_trails s (end_cell m, c) = Some S"
    using djikstra_returned_entry s(2) cS by simp
  then have "corridor_entry p d (shift p d N) N S"
    using cor c e by (simp add: corridor_inv_def)
  then have "S = shift p d ` {0..N}"
    using progress_shift[OF d, of p N] by (simp add: corridor_entry_def)
  then show ?thesis
    using r cS c unfolding find_djikstra_Some[symmetric] by blast
qed

text \<open>
  C4. Let the end cell lie \<open>N\<close> cells from the start in the start heading, one of the
  four, with no wall on the \<open>N\<close> cells before it. Then \<open>find_astar\<close> returns the cost
  \<open>N\<close>, and \<open>find_djikstra\<close> returns the cost \<open>N\<close> and exactly the cells of the
  line from start to end, which are \<open>N + 1\<close> cells. In the maze \<open>corridor3\<close>, three
  passes give the cost 2 and the three cells.
\<close>

theorem straight_corridor:
  assumes "d \<in> cardinals" and "0 \<le> N" and "end_cell m = shift p d N"
    and "\<forall>k. 0 \<le> k \<and> k < N \<longrightarrow> \<not> is_wall m (shift p d k)"
  shows "(\<exists>fuel t. find_astar fuel m p d = Some (Inr (N, t)))
     \<and> (\<exists>fuel. find_djikstra fuel m p d = Some (Inr (N, shift p d ` {0..N})))
     \<and> card (shift p d ` {0..N}) = nat N + 1
     \<and> cost_of (find_astar 3 corridor3 (Point 0 1) (Direction 1 0)) = Some (Inr 2)
     \<and> find_djikstra 3 corridor3 (Point 0 1) (Direction 1 0)
         = Some (Inr (2, {Point 0 1, Point 1 1, Point 2 1}))"
proof -
  have w: "walk m (d, p) (replicate (nat N) Forward) = Some (d, shift p d N)"
    using straight_walk[of "nat N" m p d] assms(2,4) by simp
  obtain fuel c tr where a: "find_astar fuel m p d = Some (Inr (c, tr))"
      "best_cost m (d, p) c"
    using astar_returns[OF assms(1) w] assms(3) by auto
  have "c = N" by (rule corridor_best_cost[OF assms a(2)])
  then have astar: "\<exists>fuel t. find_astar fuel m p d = Some (Inr (N, t))"
    using a(1) by blast
  have "card (shift p d ` {0..N}) = card {0..N}"
    by (rule card_image) (rule inj_on_subset[OF inj_shift[OF assms(1)]], simp)
  then have cells: "card (shift p d ` {0..N}) = nat N + 1"
    using assms(2) by simp
  have c3a: "cost_of (find_astar 3 corridor3 (Point 0 1) (Direction 1 0)) = Some (Inr 2)"
    by code_simp
  have c3d: "find_djikstra 3 corridor3 (Point 0 1) (Direction 1 0)
      = Some (Inr (2, {Point 0 1, Point 1 1, Point 2 1}))"
    by code_simp
  show ?thesis
    using astar djikstra_corridor_returns[OF assms] cells c3a c3d by blast
qed

theorem straight_corridor_witness:
  "Direction 1 0 \<in> cardinals
   \<and> end_cell corridor3 = shift (Point 0 1) (Direction 1 0) 2
   \<and> \<not> is_wall corridor3 (shift (Point 0 1) (Direction 1 0) 0)
   \<and> \<not> is_wall corridor3 (shift (Point 0 1) (Direction 1 0) 1)
   \<and> (\<exists>fuel t. find_astar fuel corridor3 (Point 0 1) (Direction 1 0) = Some (Inr (2, t)))
   \<and> (\<exists>fuel. find_djikstra fuel corridor3 (Point 0 1) (Direction 1 0)
         = Some (Inr (2, shift (Point 0 1) (Direction 1 0) ` {0..2})))
   \<and> card (shift (Point 0 1) (Direction 1 0) ` {0..2}) = 3"
proof -
  have d: "Direction 1 0 \<in> cardinals"
    by (simp add: cardinals_def)
  have N: "(0::int) \<le> 2"
    by simp
  have e: "end_cell corridor3 = shift (Point 0 1) (Direction 1 0) 2"
    by (simp add: corridor3_def shift_def)
  have free: "\<forall>k. 0 \<le> k \<and> k < 2 \<longrightarrow> \<not> is_wall corridor3 (shift (Point 0 1) (Direction 1 0) k)"
    by (simp add: is_wall_def corridor3_def)
  have cells: "\<not> is_wall corridor3 (shift (Point 0 1) (Direction 1 0) 0)
      \<and> \<not> is_wall corridor3 (shift (Point 0 1) (Direction 1 0) 1)"
    by (simp add: is_wall_def corridor3_def)
  show ?thesis
    using d e cells straight_corridor[OF d N e free] by simp
qed

end
